theory Spec2Isabelle
  imports Main "HOL-Library.Sublist"
begin

section \<open>The gulp task file of syrup: a shallow embedding\<close>

text \<open>
  The source is one JavaScript closure, \<^verbatim>\<open>init(gulp, options, configParameters, paths)\<close>,
  whose private variables \<^verbatim>\<open>bundlerInstance\<close>, \<^verbatim>\<open>watchJs\<close> and \<^verbatim>\<open>runningTasks\<close> are mutated
  by callbacks. The embedding keeps those variables in a record that every callback takes
  and returns. What the callbacks hand to the outside world (gulp, watchify, child
  processes, the terminal) is written into the same record: the runs given to
  \<^verbatim>\<open>gulp.start\<close> whose completion callback has not fired, the child processes whose
  callback has not fired, the lines given to \<^verbatim>\<open>gutil.log\<close>. The outside world is a list of
  events, each of which fires one callback of the source. The tasks that only transform
  or copy files (\<^verbatim>\<open>clean\<close>, \<^verbatim>\<open>less\<close>, \<^verbatim>\<open>jslint\<close>, \<^verbatim>\<open>assets\<close>, the html tasks) have no
  part in the state and are not modelled.

  Assumptions about code that is not in the repository, all of them written where they are
  used: \<^verbatim>\<open>childProcess.exec\<close> calls its callback once; a watchify instance that was
  closed emits no further \<^verbatim>\<open>update\<close>; paths use the POSIX separator; strings are ASCII.

  Which of the callbacks given to \<^verbatim>\<open>gulp.start\<close> gulp calls, and when, is written twice.
  In the events of \<open>step\<close> every run reports its own end: its callback is called
  once, when that run ends, whether it failed or not. That is the gulp which the comment of
  \<^verbatim>\<open>runOrQueue\<close> counts on, and the statements about every reachable state are made
  there. gulp 3 does less: it keeps one callback, that of the latest \<^verbatim>\<open>gulp.start\<close>, and
  calls it when it stops; \<open>orchestrator_stop\<close> is that behaviour. The two agree as long
  as gulp holds one run at a time.
\<close>

subsection \<open>JavaScript values and strings\<close>

text \<open>
  The option values that the source tests with \<^verbatim>\<open>||\<close>, \<^verbatim>\<open>!\<close> or \<^verbatim>\<open>===\<close>. Numbers are
  integers here (no NaN, no fractions), and there are no objects.
\<close>

datatype jsval = Undefined | Null | JBool bool | JNum int | JStr string

fun truthy :: "jsval \<Rightarrow> bool" where
  "truthy Undefined = False"
| "truthy Null = False"
| "truthy (JBool b) = b"
| "truthy (JNum n) = (n \<noteq> 0)"
| "truthy (JStr s) = (s \<noteq> [])"

text \<open>\<^verbatim>\<open>a || b\<close>: the left operand when it is truthy, the right one otherwise.\<close>

definition js_or :: "jsval \<Rightarrow> jsval \<Rightarrow> jsval" where
  "js_or a b = (if truthy a then a else b)"

text \<open>
  \<^verbatim>\<open>s.indexOf(pat)\<close>: the first position at which \<^verbatim>\<open>pat\<close> starts in \<^verbatim>\<open>s\<close>, or \<open>-1\<close>.
  The third argument is the position of the text still to be searched.
\<close>

fun indexOf_from :: "string \<Rightarrow> string \<Rightarrow> nat \<Rightarrow> int" where
  "indexOf_from pat [] i = (if pat = [] then int i else - 1)"
| "indexOf_from pat (c # cs) i =
     (if prefix pat (c # cs) then int i else indexOf_from pat cs (Suc i))"

definition indexOf :: "string \<Rightarrow> string \<Rightarrow> int" where
  "indexOf s pat = indexOf_from pat s 0"

text \<open>\<^verbatim>\<open>s.split(sep)\<close> for a separator of one character: never the empty list.\<close>

fun js_split :: "char \<Rightarrow> string \<Rightarrow> string list" where
  "js_split sep [] = [[]]"
| "js_split sep (c # cs) =
     (if c = sep then [] # js_split sep cs
      else (case js_split sep cs of [] \<Rightarrow> [[c]] | p # ps \<Rightarrow> (c # p) # ps))"

text \<open>
  \<^verbatim>\<open>path.basename(p)\<close> of Node, POSIX flavour: trailing slashes are dropped, then the text
  after the last remaining slash is returned (the empty string for a path of slashes only).
\<close>

definition basename :: "string \<Rightarrow> string" where
  "basename p =
     rev (takeWhile (\<lambda>c. c \<noteq> CHR ''/'') (dropWhile (\<lambda>c. c = CHR ''/'') (rev p)))"

text \<open>
  \<^verbatim>\<open>s.trim()\<close> on ASCII text: tab, line feed, vertical tab, form feed, carriage return
  and space are removed at both ends.
\<close>

definition is_space :: "char \<Rightarrow> bool" where
  "is_space c = (c \<in> {CHR 0x09, CHR 0x0A, CHR 0x0B, CHR 0x0C, CHR 0x0D, CHR '' ''})"

definition trim :: "string \<Rightarrow> string" where
  "trim s = rev (dropWhile is_space (rev (dropWhile is_space s)))"

subsection \<open>The terminal\<close>

text \<open>
  A line given to \<^verbatim>\<open>gutil.log\<close> is the list of its coloured parts, in the order of the
  arguments and of the concatenation. The text of an elapsed time is kept as the
  difference it was computed from: \<^verbatim>\<open>formattedTimeDiff\<close> divides floating point numbers,
  and only the unit it chooses is modelled. \<open>Ms d\<close> stands for \<^verbatim>\<open>d + 'ms'\<close>, \<open>Secs d\<close> for
  \<^verbatim>\<open>d / 1000 + 's'\<close> and \<open>Mins d\<close> for \<^verbatim>\<open>d / 1000 / 60 + 'm'\<close>, with \<open>d\<close> in
  milliseconds. \<^verbatim>\<open>d / 1000 > 60\<close> on doubles is \<open>d > 60000\<close> on the integer \<open>d\<close>.
\<close>

datatype colour = Plain | Red | Green | Yellow | Cyan | Magenta | Gray

datatype duration = Ms int | Secs int | Mins int

datatype piece = Str string | Elapsed duration

type_synonym logline = "(colour \<times> piece) list"

definition formattedTimeDiff :: "int \<Rightarrow> int \<Rightarrow> colour \<times> piece" where
  "formattedTimeDiff start now =
     (let diff = now - start in
      (Yellow, Elapsed (if diff < 1000 then Ms diff
                        else if diff > 60000 then Mins diff else Secs diff)))"

subsection \<open>Options and state\<close>

text \<open>
  The fields of \<^verbatim>\<open>options\<close> and \<^verbatim>\<open>paths\<close> that the modelled functions read. A field that
  the caller left out is \<open>Undefined\<close>.
\<close>

record options =
  silent :: jsval
  sourceMaps :: jsval
  detectGlobals :: jsval
  insertGlobals :: jsval
  enableStringify :: jsval
  disableBabel :: jsval
  port :: jsval
  base :: string
  js :: string

datatype transform = Stringify | Babelify

text \<open>
  A browserify instance. \<open>sid\<close> is its identity: the number of instances constructed
  before it. The objects \<^verbatim>\<open>cache: {}\<close> and \<^verbatim>\<open>packageCache: {}\<close> are created with the
  instance and belong to it, so they have the same identity. \<open>watchified\<close> says that the
  instance was wrapped by watchify and carries the \<^verbatim>\<open>update\<close> handler.
\<close>

record session =
  sid :: nat
  debug :: bool
  detectGlobalsOpt :: jsval
  insertGlobalsOpt :: jsval
  watchified :: bool
  transforms :: "transform list"
  entries :: "(string \<times> string) list"

datatype cmd = NpmPrune | NpmInstall

text \<open>
  The two closures that the source passes to \<^verbatim>\<open>gulp.start\<close>: the one of
  \<^verbatim>\<open>runOrQueue\<close>, which captures \<^verbatim>\<open>name\<close> and \<^verbatim>\<open>start\<close>, and the one of the watch task,
  which registers the three file watchers.
\<close>

datatype callback = Requeue string int | StartWatching

datatype watcher = AllLess | Assets | Html

datatype outcome = Succeeded | Failed string

datatype jserror = TypeError

text \<open>
  The closure's variables (\<open>watchJs\<close>, \<open>bundlerInstance\<close>, \<open>runningTasks\<close>,
  \<open>handleExceptions\<close> for \<^verbatim>\<open>options.handleExceptions\<close>), the clock read by
  \<^verbatim>\<open>Date.now()\<close>, and the outside world: \<open>created\<close> counts the browserify instances
  constructed, \<open>closedSessions\<close> lists the instances on which \<^verbatim>\<open>reset()\<close> and
  \<^verbatim>\<open>close()\<close> were called (the update handler calls one right after the other),
  \<open>bundles\<close> the instances on which the js task called \<^verbatim>\<open>bundle()\<close>, \<open>active\<close> the runs
  given to \<^verbatim>\<open>gulp.start\<close> whose callback has not fired yet, \<open>started\<close> every
  \<^verbatim>\<open>gulp.start\<close> call, \<open>execs\<close> the child processes whose callback has not fired,
  \<open>watchers\<close> the registered \<^verbatim>\<open>gulp.watch\<close> watchers and \<open>log\<close> the lines logged.
  \<open>requested\<close> is a history variable with no counterpart in the source: the argument
  of every \<^verbatim>\<open>runOrQueue\<close> call, in order.
\<close>

record orch =
  clock :: int
  watchJs :: bool
  handleExceptions :: bool
  bundlerInstance :: "session option"
  created :: nat
  closedSessions :: "nat list"
  bundles :: "nat list"
  runningTasks :: "string \<rightharpoonup> bool"
  active :: "(string \<times> callback) list"
  started :: "(string \<times> callback) list"
  requested :: "string list"
  execs :: "cmd list"
  watchers :: "watcher list"
  log :: "logline list"

definition init :: orch where
  "init =
     \<lparr>clock = 0, watchJs = False, handleExceptions = False, bundlerInstance = None,
      created = 0, closedSessions = [], bundles = [], runningTasks = Map.empty,
      active = [], started = [], requested = [], execs = [], watchers = [], log = []\<rparr>"

text \<open>
  The options of a caller that passes none, with the paths of \<^verbatim>\<open>default-paths.js\<close>
  (\<open>cwd\<close> is \<^verbatim>\<open>process.cwd()\<close>).
\<close>

definition defaultOptions :: "string \<Rightarrow> options" where
  "defaultOptions cwd =
     \<lparr>silent = Undefined, sourceMaps = Undefined, detectGlobals = Undefined,
      insertGlobals = Undefined, enableStringify = Undefined, disableBabel = Undefined,
      port = Undefined, base = cwd, js = ''app/main.jsx''\<rparr>"

subsection \<open>Logging\<close>

text \<open>\<^verbatim>\<open>options.silent === true\<close> replaces \<^verbatim>\<open>gutil.log\<close> by a function that does nothing.\<close>

definition gutil_log :: "options \<Rightarrow> logline \<Rightarrow> orch \<Rightarrow> orch" where
  "gutil_log opts line s =
     (if silent opts = JBool True then s else s\<lparr>log := log s @ [line]\<rparr>)"

definition buildCompleteMessage :: "int \<Rightarrow> int \<Rightarrow> logline" where
  "buildCompleteMessage start now =
     [(Green, Str ''Build finished successfully in ''), formattedTimeDiff start now]"

definition outputBuildCompleteMessage :: "options \<Rightarrow> int \<Rightarrow> orch \<Rightarrow> orch" where
  "outputBuildCompleteMessage opts start s =
     gutil_log opts (buildCompleteMessage start (clock s)) s"

definition stdoutToLog :: "options \<Rightarrow> string \<Rightarrow> orch \<Rightarrow> orch" where
  "stdoutToLog opts stdout s =
     fold (\<lambda>ln t. if length (trim ln) > 0 then gutil_log opts [(Plain, Str (trim ln))] t else t)
       (js_split CHR 0x0A stdout) s"

subsection \<open>runOrQueue\<close>

text \<open>
  \<^verbatim>\<open>gulp.start(name, cb)\<close>: the run is handed to gulp together with its callback.
  \<open>active\<close> has the runs that gulp holds and \<open>started\<close> every call made so far, the
  latest last. What gulp does with the callbacks is not decided here but by the events.
\<close>

definition gulp_start :: "string \<Rightarrow> callback \<Rightarrow> orch \<Rightarrow> orch" where
  "gulp_start name cb s =
     s\<lparr>active := active s @ [(name, cb)], started := started s @ [(name, cb)]\<rparr>"

text \<open>
  \<^verbatim>\<open>runningTasks\<close> is an object made by \<^verbatim>\<open>{}\<close>. The map holds the properties it owns.
  Reading a key that it does not own finds what \<^verbatim>\<open>Object.prototype\<close> has under that key,
  which is not \<^verbatim>\<open>undefined\<close> and is truthy for the names below; writing to
  \<^verbatim>\<open>__proto__\<close> with a boolean changes nothing; \<^verbatim>\<open>delete\<close> removes an own property
  only.
\<close>

definition object_prototype :: "string list" where
  "object_prototype =
     [''constructor'', ''toString'', ''toLocaleString'', ''valueOf'', ''hasOwnProperty'',
      ''isPrototypeOf'', ''propertyIsEnumerable'', ''__proto__'', ''__defineGetter__'',
      ''__defineSetter__'', ''__lookupGetter__'', ''__lookupSetter__'']"

definition inherited :: "string \<Rightarrow> bool" where
  "inherited name = (name \<in> set object_prototype)"

definition runOrQueue :: "string \<Rightarrow> orch \<Rightarrow> orch" where
  "runOrQueue name s0 =
     (let s = s0\<lparr>requested := requested s0 @ [name]\<rparr> in
      if runningTasks s name = None \<and> \<not> inherited name
      then gulp_start name (Requeue name (clock s))
             (s\<lparr>runningTasks := (runningTasks s)(name \<mapsto> False)\<rparr>)
      else if name = ''__proto__'' then s
      else s\<lparr>runningTasks := (runningTasks s)(name \<mapsto> True)\<rparr>)"

text \<open>
  The function that \<^verbatim>\<open>runOrQueue\<close> passes to \<^verbatim>\<open>gulp.start\<close>. It has no parameter: whatever
  gulp passes (an error, for a run that failed) is not read.
\<close>

definition requeue_callback :: "options \<Rightarrow> string \<Rightarrow> int \<Rightarrow> orch \<Rightarrow> orch" where
  "requeue_callback opts name start s =
     (let s1 = outputBuildCompleteMessage opts start s;
          shouldRunAgain = (case runningTasks s1 name of Some b \<Rightarrow> b | None \<Rightarrow> inherited name);
          s2 = s1\<lparr>runningTasks := (runningTasks s1)(name := None)\<rparr>
      in if shouldRunAgain then runOrQueue name s2 else s2)"

definition rebundleJs :: "options \<Rightarrow> orch \<Rightarrow> orch" where
  "rebundleJs opts s =
     runOrQueue ''html-js'' (gutil_log opts [(Yellow, Str ''Rebundling javascript'')] s)"

subsection \<open>The bundler and its update handler\<close>

definition inNodeModules :: "string \<Rightarrow> bool" where
  "inNodeModules f = (indexOf f ''/node_modules/'' \<noteq> - 1)"

definition nodeModuleChanges :: "string list \<Rightarrow> string list" where
  "nodeModuleChanges changedFiles = filter inNodeModules changedFiles"

definition isPackageJson :: "string \<Rightarrow> bool" where
  "isPackageJson f =
     (let fileParts = js_split CHR ''.'' f in
      if length fileParts > 1
      then basename (fileParts ! (length fileParts - 2)) = ''package'' \<and>
           fileParts ! (length fileParts - 1) = ''json''
      else False)"

definition packageJsonChanges :: "string list \<Rightarrow> string list" where
  "packageJsonChanges changedFiles = filter isPackageJson changedFiles"

definition exec :: "cmd \<Rightarrow> orch \<Rightarrow> orch" where
  "exec c s = s\<lparr>execs := execs s @ [c]\<rparr>"

text \<open>
  The handler of watchify's \<^verbatim>\<open>update\<close> event. It reads the variable
  \<^verbatim>\<open>bundlerInstance\<close>, not the instance that emitted the event: were the variable
  undefined, \<^verbatim>\<open>bundlerInstance.reset()\<close> would throw.
\<close>

definition update_handler :: "options \<Rightarrow> string list \<Rightarrow> orch \<Rightarrow> jserror + orch" where
  "update_handler opts changedFiles s =
     (if length (nodeModuleChanges changedFiles) \<noteq> length changedFiles then
        if length (packageJsonChanges changedFiles) > 0 then
          (case bundlerInstance s of
             None \<Rightarrow> Inl TypeError
           | Some b \<Rightarrow>
               Inr (exec NpmPrune
                 (gutil_log opts
                    [(Yellow, Str ''package.json change detected, running npm prune'')]
                    (s\<lparr>closedSessions := closedSessions s @ [sid b],
                       bundlerInstance := None\<rparr>))))
        else Inr (rebundleJs opts
                    (gutil_log opts [(Yellow, Str ''Javascript changed detected'')] s))
      else Inr s)"

text \<open>
  The callbacks of the two \<^verbatim>\<open>childProcess.exec\<close> calls. \<open>err\<close> is \<^verbatim>\<open>err.toString()\<close> when
  the command failed.
\<close>

definition install_callback :: "options \<Rightarrow> string option \<Rightarrow> string \<Rightarrow> orch \<Rightarrow> orch" where
  "install_callback opts err stdout s =
     (case err of
        Some e \<Rightarrow>
          rebundleJs opts
            (gutil_log opts [(Red, Str ''Error installing dependencies:''), (Plain, Str e)] s)
      | None \<Rightarrow>
          rebundleJs opts
            (gutil_log opts [(Yellow, Str ''Dependencies installed successfully'')]
               (if stdout \<noteq> [] then stdoutToLog opts stdout s else s)))"

definition prune_callback :: "options \<Rightarrow> string option \<Rightarrow> string \<Rightarrow> orch \<Rightarrow> orch" where
  "prune_callback opts err stdout s =
     (case err of
        Some e \<Rightarrow>
          rebundleJs opts
            (gutil_log opts [(Red, Str ''Error running npm prune:''), (Plain, Str e)] s)
      | None \<Rightarrow>
          exec NpmInstall
            (gutil_log opts [(Yellow, Str ''running npm install'')]
               (if stdout \<noteq> [] then stdoutToLog opts stdout s else s)))"

fun exec_callback :: "options \<Rightarrow> cmd \<Rightarrow> string option \<Rightarrow> string \<Rightarrow> orch \<Rightarrow> orch" where
  "exec_callback opts NpmPrune err stdout s = prune_callback opts err stdout s"
| "exec_callback opts NpmInstall err stdout s = install_callback opts err stdout s"

text \<open>
  \<^verbatim>\<open>bundler()\<close>: the instance in \<^verbatim>\<open>bundlerInstance\<close> if there is one, otherwise a new one,
  wrapped by watchify (with the update handler) when \<^verbatim>\<open>watchJs\<close> is set.
\<close>

definition bundler :: "options \<Rightarrow> orch \<Rightarrow> session \<times> orch" where
  "bundler opts s =
     (case bundlerInstance s of
        Some b \<Rightarrow> (b, s)
      | None \<Rightarrow>
          (let b = \<lparr>sid = created s,
                    debug = (sourceMaps opts \<noteq> JBool False),
                    detectGlobalsOpt =
                      (if detectGlobals opts = Undefined then JBool True else detectGlobals opts),
                    insertGlobalsOpt = insertGlobals opts,
                    watchified = watchJs s,
                    transforms =
                      (if truthy (enableStringify opts) then [Stringify] else []) @
                      (if \<not> truthy (disableBabel opts) then [Babelify] else []),
                    entries = [(base opts, js opts)]\<rparr>
           in (b, s\<lparr>bundlerInstance := Some b, created := Suc (created s)\<rparr>)))"

text \<open>
  The js task, as far as the session goes: it logs, takes the instance from
  \<^verbatim>\<open>bundler()\<close> and calls \<^verbatim>\<open>bundle()\<close> on it. The destination path of the log line is
  computed by Node's path module and is left out.
\<close>

definition js_task :: "options \<Rightarrow> orch \<Rightarrow> orch" where
  "js_task opts s =
     (let s1 = gutil_log opts [(Plain, Str ''Bundling javascript: ''), (Magenta, Str (js opts))] s;
          (b, s2) = bundler opts s1
      in s2\<lparr>bundles := bundles s2 @ [sid b]\<rparr>)"

subsection \<open>The watch task and the serve task\<close>

definition watch_task :: "options \<Rightarrow> orch \<Rightarrow> orch" where
  "watch_task opts s =
     gulp_start ''build'' StartWatching
       (snd (bundler opts (s\<lparr>handleExceptions := True, watchJs := True\<rparr>)))"

text \<open>The three \<^verbatim>\<open>gulp.watch\<close> calls, made when the build run of the watch task has ended.\<close>

definition start_watching :: "orch \<Rightarrow> orch" where
  "start_watching s = s\<lparr>watchers := watchers s @ [AllLess, Assets, Html]\<rparr>"

fun watch_callback :: "options \<Rightarrow> watcher \<Rightarrow> orch \<Rightarrow> orch" where
  "watch_callback opts AllLess s =
     runOrQueue ''html-less'' (gutil_log opts [(Yellow, Str ''Less change detected'')] s)"
| "watch_callback opts Assets s =
     runOrQueue ''html-assets'' (gutil_log opts [(Yellow, Str ''Asset change detected'')] s)"
| "watch_callback opts Html s =
     runOrQueue ''html-only'' (gutil_log opts [(Yellow, Str ''HTML change detected'')] s)"

text \<open>
  The port that the serve task passes to \<^verbatim>\<open>server.listen\<close>:
  \<^verbatim>\<open>options.port || gutil.env.port || 4040\<close>.
\<close>

definition serve_port :: "options \<Rightarrow> jsval \<Rightarrow> jsval" where
  "serve_port opts envPort = js_or (port opts) (js_or envPort (JNum 4040))"

subsection \<open>Events\<close>

text \<open>
  One event fires one callback of the source. \<open>Request name\<close> is a call
  \<^verbatim>\<open>runOrQueue(name)\<close> by itself (in the source the callers are the three watch callbacks
  and \<^verbatim>\<open>rebundleJs\<close>). An event that cannot happen in a state has no successor:
  a watcher that was not registered does not fire, a command that is not running does not
  end, a run that gulp does not hold does not end, and only the watchified instance that is
  the current one emits \<^verbatim>\<open>update\<close>. \<open>Finish name cb oc\<close> is the end of the run
  \<open>name\<close> with outcome \<open>oc\<close>, reported by a call of the callback \<open>cb\<close> that was
  given to \<^verbatim>\<open>gulp.start\<close> with it: here every run reports its own end.
\<close>

datatype event =
    Tick nat
  | WatchTask
  | JsTask
  | Request string
  | Changed watcher
  | Update "string list"
  | ExecDone cmd "string option" string
  | Finish string callback outcome

fun run_callback :: "options \<Rightarrow> callback \<Rightarrow> outcome \<Rightarrow> orch \<Rightarrow> orch" where
  "run_callback opts (Requeue name start) oc s = requeue_callback opts name start s"
| "run_callback opts StartWatching oc s = start_watching s"

fun step :: "options \<Rightarrow> event \<Rightarrow> orch \<Rightarrow> orch option" where
  "step opts (Tick d) s = Some (s\<lparr>clock := clock s + int d\<rparr>)"
| "step opts WatchTask s = Some (watch_task opts s)"
| "step opts JsTask s = Some (js_task opts s)"
| "step opts (Request name) s = Some (runOrQueue name s)"
| "step opts (Changed w) s =
     (if w \<in> set (watchers s) then Some (watch_callback opts w s) else None)"
| "step opts (Update changedFiles) s =
     (case bundlerInstance s of
        None \<Rightarrow> None
      | Some b \<Rightarrow>
          if watchified b
          then (case update_handler opts changedFiles s of
                  Inl e \<Rightarrow> None
                | Inr s' \<Rightarrow> Some s')
          else None)"
| "step opts (ExecDone c err stdout) s =
     (if c \<in> set (execs s)
      then Some (exec_callback opts c err stdout (s\<lparr>execs := remove1 c (execs s)\<rparr>))
      else None)"
| "step opts (Finish name cb oc) s =
     (if (name, cb) \<in> set (active s)
      then Some (run_callback opts cb oc (s\<lparr>active := remove1 (name, cb) (active s)\<rparr>))
      else None)"

fun run :: "options \<Rightarrow> event list \<Rightarrow> orch \<Rightarrow> orch option" where
  "run opts [] s = Some s"
| "run opts (e # es) s = (case step opts e s of None \<Rightarrow> None | Some s' \<Rightarrow> run opts es s')"

subsection \<open>The orchestrator of gulp 3\<close>

text \<open>
  gulp 3 runs its tasks with Orchestrator. \<^verbatim>\<open>start(name, cb)\<close> stores \<^verbatim>\<open>cb\<close> in the one
  field \<^verbatim>\<open>doneCallback\<close>, in the place of what an earlier \<^verbatim>\<open>start\<close> stored there, and
  adds the task to the sequence that is running. Every \<^verbatim>\<open>gulp.start\<close> of the source
  passes a callback, so the field holds the callback of the latest call.
\<close>

definition doneCallback :: "orch \<Rightarrow> callback option" where
  "doneCallback s = (if started s = [] then None else Some (snd (last (started s))))"

text \<open>
  \<^verbatim>\<open>stop(err)\<close> of the orchestrator is reached when every task of the sequence is done,
  or as soon as one of them fails. It marks the orchestrator idle and calls
  \<^verbatim>\<open>doneCallback(err)\<close>, if there is one. That is the only call of a callback given to
  \<^verbatim>\<open>gulp.start\<close>: nothing is called when one run ends while another goes on. After the
  stop gulp holds no run, each of them having ended or been given up (a task that is at
  work is not interrupted, but gulp starts no further task of the sequence).
\<close>

definition orchestrator_stop :: "options \<Rightarrow> outcome \<Rightarrow> orch \<Rightarrow> orch" where
  "orchestrator_stop opts oc s =
     (let s1 = s\<lparr>active := []\<rparr> in
      case doneCallback s of
        None \<Rightarrow> s1
      | Some cb \<Rightarrow> run_callback opts cb oc s1)"

text \<open>
  Watch mode at work: the watch task has run, the build that it started has ended, gulp
  has stopped and called the callback of the watch task, which registered the watchers.
\<close>

definition watching :: "options \<Rightarrow> orch" where
  "watching opts = orchestrator_stop opts Succeeded (watch_task opts init)"

subsection \<open>Runs of a task\<close>

text \<open>
  A run of task \<open>name\<close> that \<^verbatim>\<open>runOrQueue\<close> gave to gulp; \<open>executing\<close> counts those
  that have not ended, \<open>launches\<close> lists all of them. An event \<open>completes\<close> a task when
  it is the end of such a run.
\<close>

fun queued_run_of :: "string \<Rightarrow> string \<times> callback \<Rightarrow> bool" where
  "queued_run_of name (n, Requeue n' start) = (n = name)"
| "queued_run_of name (n, StartWatching) = False"

definition executing :: "string \<Rightarrow> orch \<Rightarrow> nat" where
  "executing name s = length (filter (queued_run_of name) (active s))"

definition launches :: "string \<Rightarrow> orch \<Rightarrow> (string \<times> callback) list" where
  "launches name s = filter (queued_run_of name) (started s)"

fun completes :: "string \<Rightarrow> event \<Rightarrow> bool" where
  "completes name (Finish n cb oc) = queued_run_of name (n, cb)"
| "completes name e = False"

text \<open>
  What ties \<open>runningTasks\<close> to the runs that gulp holds: a task whose name is not a
  property of \<^verbatim>\<open>Object.prototype\<close> has an entry exactly when one run of it is in flight, a
  task with such a name has no run, and the closure of a run names the task it was started
  for.
\<close>

definition coalescer_inv :: "orch \<Rightarrow> bool" where
  "coalescer_inv s =
     ((\<forall>name. executing name s =
                (if runningTasks s name = None \<or> inherited name then 0 else 1)) \<and>
      (\<forall>n n' st. (n, Requeue n' st) \<in> set (active s) \<longrightarrow> n' = n))"

text \<open>
  What happens to a task while none of its runs ends: its runs in flight and its launches
  stay, and either its entry and its number of requests stay too, or it was requested once
  more and its flag is set.
\<close>

definition unseen :: "string \<Rightarrow> orch \<Rightarrow> orch \<Rightarrow> bool" where
  "unseen name s t =
     (filter (queued_run_of name) (active t) = filter (queued_run_of name) (active s) \<and>
      launches name t = launches name s \<and>
      ((runningTasks t name = runningTasks s name \<and>
        count_list (requested t) name = count_list (requested s) name) \<or>
       (runningTasks t name = Some True \<and>
        count_list (requested t) name = Suc (count_list (requested s) name))))"

text \<open>\<^verbatim>\<open>parts.join(sep)\<close>, the inverse of \<^verbatim>\<open>split\<close>.\<close>

fun js_join :: "char \<Rightarrow> string list \<Rightarrow> string" where
  "js_join sep [] = []"
| "js_join sep [p] = p"
| "js_join sep (p # q # ps) = p @ sep # js_join sep (q # ps)"

text \<open>
  Every instance that the state knows was constructed: its identity is below the number
  of instances constructed, and the current instance was not closed.
\<close>

definition session_inv :: "orch \<Rightarrow> bool" where
  "session_inv s =
     ((\<forall>b. bundlerInstance s = Some b \<longrightarrow>
          sid b < created s \<and> sid b \<notin> set (closedSessions s)) \<and>
      (\<forall>i\<in>set (closedSessions s). i < created s))"

text \<open>
  From some point on: at least \<open>c\<close> instances were constructed, the current instance is
  none of the first \<open>c\<close>, and every \<^verbatim>\<open>bundle()\<close> after the calls \<open>pre\<close> was made on an
  instance that is none of the first \<open>c\<close>.
\<close>

definition fresh_from :: "nat \<Rightarrow> nat list \<Rightarrow> orch \<Rightarrow> bool" where
  "fresh_from c pre s =
     (c \<le> created s \<and>
      (\<forall>b. bundlerInstance s = Some b \<longrightarrow> c \<le> sid b) \<and>
      (\<exists>new. bundles s = pre @ new \<and> (\<forall>i\<in>set new. c \<le> i)))"

text \<open>
  The state of a process in which the watch task never ran: no instance yet, or the one
  plain browserify instance that the first \<^verbatim>\<open>bundler()\<close> call made, on which every
  \<^verbatim>\<open>bundle()\<close> so far was called.
\<close>

definition one_shot :: "options \<Rightarrow> orch \<Rightarrow> bool" where
  "one_shot opts s =
     (\<not> watchJs s \<and> closedSessions s = [] \<and>
      (case bundlerInstance s of
         None \<Rightarrow> created s = 0 \<and> bundles s = []
       | Some b \<Rightarrow> b = fst (bundler opts init) \<and> created s = 1 \<and> set (bundles s) \<subseteq> {0}))"

text \<open>The task that the callback of each watcher requests.\<close>

fun task_of :: "watcher \<Rightarrow> string" where
  "task_of AllLess = ''html-less''"
| "task_of Assets = ''html-assets''"
| "task_of Html = ''html-only''"

text \<open>
  Not in the source: what gulp and watchify make of one change of the file \<open>p\<close>.
  \<open>matches w p\<close> says that \<open>p\<close> matches the glob that watcher \<open>w\<close> was given
  (\<^verbatim>\<open>paths.allLess\<close>, \<^verbatim>\<open>paths.assets\<close>, \<^verbatim>\<open>paths.html\<close>), and \<open>bundled p\<close> that \<open>p\<close> is a
  module of the bundle. The three \<^verbatim>\<open>gulp.watch\<close> calls of the watch task make three
  watchers that know nothing of each other: each one whose glob matches calls its own
  callback. A watchified instance that is the current one emits \<^verbatim>\<open>update\<close> for a module
  of the bundle.
\<close>

definition notifications ::
  "(watcher \<Rightarrow> string \<Rightarrow> bool) \<Rightarrow> (string \<Rightarrow> bool) \<Rightarrow> string \<Rightarrow> orch \<Rightarrow> event list" where
  "notifications matches bundled p s =
     map Changed (filter (\<lambda>w. matches w p) (watchers s)) @
     (if bundled p \<and> (case bundlerInstance s of None \<Rightarrow> False | Some b \<Rightarrow> watchified b)
      then [Update [p]] else [])"

section \<open>Basic facts\<close>

lemma run_append:
  "run opts (es @ fs) s = (case run opts es s of None \<Rightarrow> None | Some s' \<Rightarrow> run opts fs s')"
  by (induction es arbitrary: s) (auto split: option.splits)

subsection \<open>What each operation leaves alone\<close>

lemma gutil_log_fields [simp]:
  "clock (gutil_log opts l s) = clock s"
  "watchJs (gutil_log opts l s) = watchJs s"
  "handleExceptions (gutil_log opts l s) = handleExceptions s"
  "bundlerInstance (gutil_log opts l s) = bundlerInstance s"
  "created (gutil_log opts l s) = created s"
  "closedSessions (gutil_log opts l s) = closedSessions s"
  "bundles (gutil_log opts l s) = bundles s"
  "runningTasks (gutil_log opts l s) = runningTasks s"
  "active (gutil_log opts l s) = active s"
  "started (gutil_log opts l s) = started s"
  "requested (gutil_log opts l s) = requested s"
  "execs (gutil_log opts l s) = execs s"
  "watchers (gutil_log opts l s) = watchers s"
  by (simp_all add: gutil_log_def)

lemma gutil_log_log:
  "log (gutil_log opts l s) = (if silent opts = JBool True then log s else log s @ [l])"
  by (simp add: gutil_log_def)

lemma fold_log_only:
  "fold (\<lambda>ln t. if p ln then gutil_log opts (g ln) t else t) xs s = s\<lparr>log := log (fold (\<lambda>ln t. if p ln then gutil_log opts (g ln) t else t) xs s)\<rparr>"
proof (induction xs arbitrary: s)
  case Nil
  show ?case by simp
next
  case (Cons x xs)
  let ?f = "\<lambda>ln t. if p ln then gutil_log opts (g ln) t else t"
  have "fold ?f (x # xs) s = fold ?f xs (?f x s)" by simp
  also have "\<dots> = (?f x s)\<lparr>log := log (fold ?f xs (?f x s))\<rparr>" by (rule Cons.IH)
  also have "\<dots> = s\<lparr>log := log (fold ?f xs (?f x s))\<rparr>" by (simp add: gutil_log_def)
  finally show ?case by simp
qed

lemma stdoutToLog_log_only:
  "stdoutToLog opts out s = s\<lparr>log := log (stdoutToLog opts out s)\<rparr>"
  unfolding stdoutToLog_def by (rule fold_log_only)

lemma stdoutToLog_fields [simp]:
  "clock (stdoutToLog opts out s) = clock s"
  "watchJs (stdoutToLog opts out s) = watchJs s"
  "handleExceptions (stdoutToLog opts out s) = handleExceptions s"
  "bundlerInstance (stdoutToLog opts out s) = bundlerInstance s"
  "created (stdoutToLog opts out s) = created s"
  "closedSessions (stdoutToLog opts out s) = closedSessions s"
  "bundles (stdoutToLog opts out s) = bundles s"
  "runningTasks (stdoutToLog opts out s) = runningTasks s"
  "active (stdoutToLog opts out s) = active s"
  "started (stdoutToLog opts out s) = started s"
  "requested (stdoutToLog opts out s) = requested s"
  "execs (stdoutToLog opts out s) = execs s"
  "watchers (stdoutToLog opts out s) = watchers s"
  by (subst stdoutToLog_log_only, simp)+

lemma runOrQueue_fields [simp]:
  "clock (runOrQueue name s) = clock s"
  "watchJs (runOrQueue name s) = watchJs s"
  "handleExceptions (runOrQueue name s) = handleExceptions s"
  "bundlerInstance (runOrQueue name s) = bundlerInstance s"
  "created (runOrQueue name s) = created s"
  "closedSessions (runOrQueue name s) = closedSessions s"
  "bundles (runOrQueue name s) = bundles s"
  "execs (runOrQueue name s) = execs s"
  "watchers (runOrQueue name s) = watchers s"
  "log (runOrQueue name s) = log s"
  "requested (runOrQueue name s) = requested s @ [name]"
  by (simp_all add: runOrQueue_def gulp_start_def Let_def)

lemma proto_inherited: "inherited ''__proto__''"
  by (simp add: inherited_def object_prototype_def)

lemma runOrQueue_idle:
  "runningTasks s name = None \<Longrightarrow> \<not> inherited name \<Longrightarrow>
   runningTasks (runOrQueue name s) = (runningTasks s)(name \<mapsto> False) \<and>
   active (runOrQueue name s) = active s @ [(name, Requeue name (clock s))] \<and>
   started (runOrQueue name s) = started s @ [(name, Requeue name (clock s))]"
  by (simp add: runOrQueue_def gulp_start_def)

lemma runOrQueue_busy:
  "runningTasks s name = Some b \<Longrightarrow> \<not> inherited name \<Longrightarrow>
   runningTasks (runOrQueue name s) = (runningTasks s)(name \<mapsto> True) \<and>
   active (runOrQueue name s) = active s \<and>
   started (runOrQueue name s) = started s"
  using proto_inherited by (auto simp: runOrQueue_def gulp_start_def Let_def)

lemma runOrQueue_inherited:
  "inherited name \<Longrightarrow>
   active (runOrQueue name s) = active s \<and> started (runOrQueue name s) = started s \<and>
   (\<forall>n. n \<noteq> name \<longrightarrow> runningTasks (runOrQueue name s) n = runningTasks s n)"
  by (simp add: runOrQueue_def Let_def)

lemma coalescer_inv_cong:
  "runningTasks t = runningTasks s \<Longrightarrow> active t = active s \<Longrightarrow> coalescer_inv s \<Longrightarrow> coalescer_inv t"
  by (simp add: coalescer_inv_def executing_def)

lemma executing_append:
  "active t = active s @ [r] \<Longrightarrow>
   executing name t = executing name s + (if queued_run_of name r then 1 else 0)"
  by (simp add: executing_def)

lemma coalescer_inv_runOrQueue:
  assumes inv: "coalescer_inv s"
  shows "coalescer_inv (runOrQueue name s)"
proof -
  let ?t = "runOrQueue name s"
  have ex: "executing n ?t = (if runningTasks ?t n = None \<or> inherited n then 0 else 1)" for n
  proof (cases "inherited name")
    case True
    note eqs = runOrQueue_inherited [OF True, of s]
    have "executing n ?t = executing n s" using eqs by (simp add: executing_def)
    with inv True eqs show ?thesis
      by (cases "n = name") (auto simp: coalescer_inv_def)
  next
    case False
    show ?thesis
    proof (cases "runningTasks s name")
      case None
      note eqs = runOrQueue_idle [OF None False]
      from inv None False eqs
        executing_append [of ?t s "(name, Requeue name (clock s))" n]
      show ?thesis by (auto simp: coalescer_inv_def)
    next
      case (Some b)
      note eqs = runOrQueue_busy [OF Some False]
      from inv Some False eqs show ?thesis by (auto simp: coalescer_inv_def executing_def)
    qed
  qed
  have cl: "(n, Requeue n' st) \<in> set (active ?t) \<Longrightarrow> n' = n" for n n' st
  proof (cases "runningTasks s name = None \<and> \<not> inherited name")
    case True
    with inv runOrQueue_idle [of s name] show "(n, Requeue n' st) \<in> set (active ?t) \<Longrightarrow> n' = n"
      by (auto simp: coalescer_inv_def)
  next
    case False
    then have "active ?t = active s" by (auto simp: runOrQueue_def Let_def)
    with inv show "(n, Requeue n' st) \<in> set (active ?t) \<Longrightarrow> n' = n"
      by (auto simp: coalescer_inv_def)
  qed
  from ex cl show ?thesis unfolding coalescer_inv_def by blast
qed

lemma coalescer_inv_gutil_log [simp]:
  "coalescer_inv (gutil_log opts l s) = coalescer_inv s"
  by (simp add: coalescer_inv_def executing_def)

lemma coalescer_inv_stdoutToLog [simp]:
  "coalescer_inv (stdoutToLog opts out s) = coalescer_inv s"
  by (simp add: coalescer_inv_def executing_def)

lemma coalescer_inv_rebundleJs:
  "coalescer_inv s \<Longrightarrow> coalescer_inv (rebundleJs opts s)"
  unfolding rebundleJs_def by (rule coalescer_inv_runOrQueue) simp

lemma filter_pos: "x \<in> set xs \<Longrightarrow> P x \<Longrightarrow> 0 < length (filter P xs)"
  by (induction xs) auto

lemma length_filter_remove1:
  "x \<in> set xs \<Longrightarrow>
   length (filter P (remove1 x xs)) = length (filter P xs) - (if P x then 1 else 0)"
proof (induction xs)
  case Nil
  then show ?case by simp
next
  case (Cons a xs)
  show ?case
  proof (cases "x = a")
    case True
    then show ?thesis by simp
  next
    case False
    with Cons.prems have mem: "x \<in> set xs" by simp
    have "P x \<Longrightarrow> 0 < length (filter P xs)" using mem by (rule filter_pos)
    with Cons.IH [OF mem] False show ?thesis by (cases "P x"; cases "P a"; simp)
  qed
qed

lemma bundler_snd:
  "snd (bundler opts s) =
     (case bundlerInstance s of
        Some b \<Rightarrow> s
      | None \<Rightarrow> s\<lparr>bundlerInstance := Some (fst (bundler opts s)), created := Suc (created s)\<rparr>)"
  by (simp add: bundler_def Let_def split: option.splits)

lemma bundler_fields [simp]:
  "runningTasks (snd (bundler opts s)) = runningTasks s"
  "active (snd (bundler opts s)) = active s"
  "started (snd (bundler opts s)) = started s"
  "requested (snd (bundler opts s)) = requested s"
  "execs (snd (bundler opts s)) = execs s"
  "watchers (snd (bundler opts s)) = watchers s"
  "log (snd (bundler opts s)) = log s"
  "clock (snd (bundler opts s)) = clock s"
  "watchJs (snd (bundler opts s)) = watchJs s"
  "handleExceptions (snd (bundler opts s)) = handleExceptions s"
  "closedSessions (snd (bundler opts s)) = closedSessions s"
  "bundles (snd (bundler opts s)) = bundles s"
  by (simp_all add: bundler_snd split: option.splits)

lemma js_task_eq:
  "js_task opts s =
     (snd (bundler opts (gutil_log opts [(Plain, Str ''Bundling javascript: ''), (Magenta, Str (js opts))] s)))
       \<lparr>bundles := bundles s @
          [sid (fst (bundler opts (gutil_log opts [(Plain, Str ''Bundling javascript: ''), (Magenta, Str (js opts))] s)))]\<rparr>"
  by (simp add: js_task_def Let_def case_prod_beta)


lemma js_task_fields [simp]:
  "runningTasks (js_task opts s) = runningTasks s"
  "active (js_task opts s) = active s"
  "started (js_task opts s) = started s"
  "requested (js_task opts s) = requested s"
  "execs (js_task opts s) = execs s"
  "watchers (js_task opts s) = watchers s"
  "clock (js_task opts s) = clock s"
  "watchJs (js_task opts s) = watchJs s"
  "closedSessions (js_task opts s) = closedSessions s"
  by (simp_all add: js_task_eq)

lemma exec_fields [simp]:
  "runningTasks (exec c s) = runningTasks s"
  "active (exec c s) = active s"
  "started (exec c s) = started s"
  "requested (exec c s) = requested s"
  "execs (exec c s) = execs s @ [c]"
  "watchers (exec c s) = watchers s"
  "log (exec c s) = log s"
  "clock (exec c s) = clock s"
  "watchJs (exec c s) = watchJs s"
  "bundlerInstance (exec c s) = bundlerInstance s"
  "created (exec c s) = created s"
  "closedSessions (exec c s) = closedSessions s"
  "bundles (exec c s) = bundles s"
  by (simp_all add: exec_def)


lemma coalescer_inv_exec [simp]:
  "coalescer_inv (exec c s) = coalescer_inv s"
  by (simp add: coalescer_inv_def executing_def)

lemma coalescer_inv_watch_callback:
  "coalescer_inv s \<Longrightarrow> coalescer_inv (watch_callback opts w s)"
  by (cases w) (simp_all add: coalescer_inv_runOrQueue)

lemma coalescer_inv_exec_callback:
  "coalescer_inv s \<Longrightarrow> coalescer_inv (exec_callback opts c err out s)"
  by (cases c; cases err)
     (simp_all add: prune_callback_def install_callback_def coalescer_inv_rebundleJs)

lemma coalescer_inv_update_handler:
  assumes "coalescer_inv s" and "update_handler opts fs s = Inr t"
  shows "coalescer_inv t"
proof -
  have "coalescer_inv (s\<lparr>closedSessions := cs, bundlerInstance := bi\<rparr>)" for cs bi
    using assms(1) by (simp add: coalescer_inv_def executing_def)
  with assms show ?thesis
    by (auto simp: update_handler_def coalescer_inv_rebundleJs split: if_splits option.splits)
qed


lemma outputBuildCompleteMessage_fields [simp]:
  "runningTasks (outputBuildCompleteMessage opts st s) = runningTasks s"
  "active (outputBuildCompleteMessage opts st s) = active s"
  "started (outputBuildCompleteMessage opts st s) = started s"
  "requested (outputBuildCompleteMessage opts st s) = requested s"
  "clock (outputBuildCompleteMessage opts st s) = clock s"
  "execs (outputBuildCompleteMessage opts st s) = execs s"
  "watchers (outputBuildCompleteMessage opts st s) = watchers s"
  "watchJs (outputBuildCompleteMessage opts st s) = watchJs s"
  "bundlerInstance (outputBuildCompleteMessage opts st s) = bundlerInstance s"
  "created (outputBuildCompleteMessage opts st s) = created s"
  "closedSessions (outputBuildCompleteMessage opts st s) = closedSessions s"
  "bundles (outputBuildCompleteMessage opts st s) = bundles s"
  by (simp_all add: outputBuildCompleteMessage_def)

lemma in_remove1D: "x \<in> set (remove1 y xs) \<Longrightarrow> x \<in> set xs"
  using set_remove1_subset [of y xs] by blast

lemma coalescer_inv_finish:
  assumes inv: "coalescer_inv s" and mem: "(n, cb) \<in> set (active s)"
  shows "coalescer_inv (run_callback opts cb oc (s\<lparr>active := remove1 (n, cb) (active s)\<rparr>))"
proof (cases cb)
  case StartWatching
  have "coalescer_inv (s\<lparr>active := remove1 (n, cb) (active s)\<rparr>)"
    using inv mem StartWatching
    by (auto simp: coalescer_inv_def executing_def length_filter_remove1 dest!: in_remove1D)
  then show ?thesis using StartWatching
    by (simp add: start_watching_def coalescer_inv_def executing_def)
next
  case (Requeue n' st)
  with inv mem have nn: "n' = n" by (auto simp: coalescer_inv_def)
  let ?s1 = "outputBuildCompleteMessage opts st (s\<lparr>active := remove1 (n, cb) (active s)\<rparr>)"
  let ?s2 = "?s1\<lparr>runningTasks := (runningTasks ?s1)(n := None)\<rparr>"
  have act: "active ?s2 = remove1 (n, cb) (active s)" and rt: "runningTasks ?s2 = (runningTasks s)(n := None)"
    by simp_all
  have pos: "0 < executing n s"
    unfolding executing_def using mem Requeue nn by (intro filter_pos [of "(n, cb)"]) simp_all
  have ex: "executing m ?s2 = executing m s - (if m = n then 1 else 0)" for m
    using mem Requeue nn by (simp add: executing_def length_filter_remove1)
  have "executing m ?s2 = (if runningTasks ?s2 m = None \<or> inherited m then 0 else 1)" for m
    using inv pos ex [of m] unfolding rt by (auto simp: coalescer_inv_def split: if_splits)
  moreover have "(a, Requeue a' st') \<in> set (active ?s2) \<Longrightarrow> a' = a" for a a' st'
    unfolding act using inv by (auto simp: coalescer_inv_def dest!: in_remove1D)
  ultimately have inv2: "coalescer_inv ?s2" unfolding coalescer_inv_def by blast
  show ?thesis using Requeue nn inv2
    by (simp add: requeue_callback_def Let_def coalescer_inv_runOrQueue)
qed

lemma coalescer_inv_js_task [simp]: "coalescer_inv (js_task opts s) = coalescer_inv s"
  by (simp add: coalescer_inv_def executing_def)

lemma coalescer_inv_watch_task: "coalescer_inv s \<Longrightarrow> coalescer_inv (watch_task opts s)"
  by (simp add: coalescer_inv_def executing_def watch_task_def gulp_start_def)

lemma coalescer_inv_step:
  assumes "coalescer_inv s" and "step opts e s = Some t"
  shows "coalescer_inv t"
proof (cases e)
  case (Tick d)
  have "coalescer_inv (s\<lparr>clock := c\<rparr>) = coalescer_inv s" for c
    by (simp add: coalescer_inv_def executing_def)
  with assms Tick show ?thesis by auto
next
  case WatchTask
  with assms show ?thesis by (auto simp: coalescer_inv_watch_task)
next
  case JsTask
  with assms show ?thesis by auto
next
  case (Request name)
  with assms show ?thesis by (auto simp: coalescer_inv_runOrQueue)
next
  case (Changed w)
  with assms show ?thesis by (auto simp: coalescer_inv_watch_callback split: if_splits)
next
  case (Update fs)
  with assms show ?thesis
    by (auto split: option.splits if_splits sum.splits dest: coalescer_inv_update_handler)
next
  case (ExecDone c err out)
  have "coalescer_inv (s\<lparr>execs := remove1 c (execs s)\<rparr>)"
    using assms(1) by (simp add: coalescer_inv_def executing_def)
  with assms ExecDone show ?thesis by (auto split: if_splits intro: coalescer_inv_exec_callback)
next
  case (Finish n cb oc)
  with assms show ?thesis by (auto split: if_splits intro: coalescer_inv_finish)
qed

lemma coalescer_inv_run:
  "coalescer_inv s \<Longrightarrow> run opts es s = Some t \<Longrightarrow> coalescer_inv t"
  by (induction es arbitrary: s) (auto split: option.splits dest: coalescer_inv_step)

lemma coalescer_inv_init: "coalescer_inv init"
  by (simp add: coalescer_inv_def init_def executing_def)

section \<open>The port of the serve task\<close>

text \<open>
  C10, as the source has it. With neither \<^verbatim>\<open>options.port\<close> nor the port of the
  environment set, the server listens on 4040. An \<^verbatim>\<open>options.port\<close> that is truthy is the
  port whatever the environment says; one that is not truthy (0, the empty string) yields
  to a truthy port of the environment, and to 4040 when the port of the environment is not
  truthy either.
\<close>

theorem serve_port_precedence:
  "(port opts = Undefined \<and> envPort = Undefined \<longrightarrow> serve_port opts envPort = JNum 4040) \<and>
   (truthy (port opts) \<longrightarrow> serve_port opts envPort = port opts) \<and>
   (\<not> truthy (port opts) \<and> truthy envPort \<longrightarrow> serve_port opts envPort = envPort) \<and>
   (\<not> truthy (port opts) \<and> \<not> truthy envPort \<longrightarrow> serve_port opts envPort = JNum 4040)"
  by (simp add: serve_port_def js_or_def)

theorem serve_port_precedence_witness:
  "serve_port (defaultOptions ''/srv'') Undefined = JNum 4040 \<and>
   serve_port ((defaultOptions ''/srv'')\<lparr>port := JNum 8000\<rparr>) (JNum 9000) = JNum 8000 \<and>
   serve_port (defaultOptions ''/srv'') (JNum 9000) = JNum 9000 \<and>
   serve_port ((defaultOptions ''/srv'')\<lparr>port := JNum 0\<rparr>) (JNum 9000) = JNum 9000 \<and>
   serve_port ((defaultOptions ''/srv'')\<lparr>port := JNum 0\<rparr>) Undefined = JNum 4040 \<and>
   serve_port ((defaultOptions ''/srv'')\<lparr>port := JStr []\<rparr>) (JNum 0) = JNum 4040"
proof -
  have d: "serve_port ((defaultOptions ''/srv'')\<lparr>port := JNum 0\<rparr>) (JNum 9000) = JNum 9000"
    using serve_port_precedence [of "(defaultOptions ''/srv'')\<lparr>port := JNum 0\<rparr>" "JNum 9000"]
    by simp
  have e: "serve_port ((defaultOptions ''/srv'')\<lparr>port := JNum 0\<rparr>) Undefined = JNum 4040"
    using serve_port_precedence [of "(defaultOptions ''/srv'')\<lparr>port := JNum 0\<rparr>" Undefined]
    by simp
  have f: "serve_port ((defaultOptions ''/srv'')\<lparr>port := JStr []\<rparr>) (JNum 0) = JNum 4040"
    using serve_port_precedence [of "(defaultOptions ''/srv'')\<lparr>port := JStr []\<rparr>" "JNum 0"]
    by simp
  have a: "serve_port (defaultOptions ''/srv'') Undefined = JNum 4040"
    using serve_port_precedence [of "defaultOptions ''/srv''" Undefined]
    by (simp add: defaultOptions_def)
  have b: "serve_port ((defaultOptions ''/srv'')\<lparr>port := JNum 8000\<rparr>) (JNum 9000) = JNum 8000"
    using serve_port_precedence [of "(defaultOptions ''/srv'')\<lparr>port := JNum 8000\<rparr>" "JNum 9000"]
    by (simp add: defaultOptions_def)
  have c: "serve_port (defaultOptions ''/srv'') (JNum 9000) = JNum 9000"
    using serve_port_precedence [of "defaultOptions ''/srv''" "JNum 9000"]
    by (simp add: defaultOptions_def)
  from a b c d e f show ?thesis by simp
qed

text \<open>
  C10 as stated fails for an explicit port that is not truthy: with \<^verbatim>\<open>options.port = 0\<close>
  and 8080 from the environment the server listens on 8080.
\<close>

theorem serve_port_zero_counterexample:
  "port ((defaultOptions ''/srv'')\<lparr>port := JNum 0\<rparr>) = JNum 0 \<and>
   serve_port ((defaultOptions ''/srv'')\<lparr>port := JNum 0\<rparr>) (JNum 8080) = JNum 8080"
  by (simp add: serve_port_def js_or_def defaultOptions_def)

section \<open>The run coalescer\<close>

lemma reachable_inv: "run opts es init = Some s \<Longrightarrow> coalescer_inv s"
  using coalescer_inv_init by (rule coalescer_inv_run)


lemma executing_entry:
  "coalescer_inv s \<Longrightarrow>
   (executing name s = 1) = (runningTasks s name \<noteq> None \<and> \<not> inherited name)"
  by (simp add: coalescer_inv_def)



lemma filter_remove1_other: "\<not> P x \<Longrightarrow> filter P (remove1 x xs) = filter P xs"
  by (induction xs) auto

lemma runOrQueue_other:
  assumes "n \<noteq> name"
  shows "runningTasks (runOrQueue n s) name = runningTasks s name"
    and "filter (queued_run_of name) (active (runOrQueue n s)) = filter (queued_run_of name) (active s)"
    and "launches name (runOrQueue n s) = launches name s"
    and "count_list (requested (runOrQueue n s)) name = count_list (requested s) name"
  using assms by (simp_all add: runOrQueue_def gulp_start_def launches_def Let_def)

lemma runOrQueue_same:
  assumes "runningTasks s name = Some b" and "\<not> inherited name"
  shows "runningTasks (runOrQueue name s) name = Some True"
    and "filter (queued_run_of name) (active (runOrQueue name s)) = filter (queued_run_of name) (active s)"
    and "launches name (runOrQueue name s) = launches name s"
    and "count_list (requested (runOrQueue name s)) name = Suc (count_list (requested s) name)"
  using assms proto_inherited by (auto simp: runOrQueue_def launches_def Let_def)

lemma unseen_runOrQueue:
  "runningTasks s name = Some b \<Longrightarrow> \<not> inherited name \<Longrightarrow> unseen name s (runOrQueue n s)"
  by (cases "n = name") (simp_all add: unseen_def runOrQueue_other runOrQueue_same)

lemma unseen_frame:
  "runningTasks t = runningTasks s \<Longrightarrow> active t = active s \<Longrightarrow> started t = started s \<Longrightarrow>
   requested t = requested s \<Longrightarrow> unseen name s t"
  by (simp add: unseen_def launches_def)

lemma unseen_trans_frame:
  "unseen name s' t \<Longrightarrow> runningTasks s' = runningTasks s \<Longrightarrow> active s' = active s \<Longrightarrow>
   started s' = started s \<Longrightarrow> requested s' = requested s \<Longrightarrow> unseen name s t"
  by (simp add: unseen_def launches_def)

lemma unseen_rebundleJs:
  assumes "runningTasks s name = Some b" and "\<not> inherited name"
  shows "unseen name s (rebundleJs opts s)"
proof -
  let ?l = "gutil_log opts [(Yellow, Str ''Rebundling javascript'')] s"
  have "runningTasks ?l name = Some b" using assms(1) by simp
  then have "unseen name ?l (runOrQueue ''html-js'' ?l)"
    using assms(2) by (rule unseen_runOrQueue)
  then show ?thesis unfolding rebundleJs_def by (rule unseen_trans_frame) simp_all
qed

lemma unseen_rebundleJs_frame:
  assumes "runningTasks s name = Some b" and ni: "\<not> inherited name"
    and fr: "runningTasks s' = runningTasks s" "active s' = active s" "started s' = started s"
      "requested s' = requested s"
  shows "unseen name s (rebundleJs opts s')"
proof -
  have "runningTasks s' name = Some b" using assms by simp
  then have "unseen name s' (rebundleJs opts s')" using ni by (rule unseen_rebundleJs)
  then show ?thesis using fr by (rule unseen_trans_frame)
qed

lemma unseen_runOrQueue_frame:
  assumes "runningTasks s name = Some b" and ni: "\<not> inherited name"
    and fr: "runningTasks s' = runningTasks s" "active s' = active s" "started s' = started s"
      "requested s' = requested s"
  shows "unseen name s (runOrQueue n s')"
proof -
  have "runningTasks s' name = Some b" using assms by simp
  then have "unseen name s' (runOrQueue n s')" using ni by (rule unseen_runOrQueue)
  then show ?thesis using fr by (rule unseen_trans_frame)
qed

lemma unseen_watch_callback:
  assumes "runningTasks s name = Some b" and "\<not> inherited name"
  shows "unseen name s (watch_callback opts w s)"
  by (cases w; simp; rule unseen_runOrQueue_frame [OF assms]; simp)

lemma unseen_exec_callback:
  assumes rt: "runningTasks s name = Some b" and ni: "\<not> inherited name"
    and fr: "runningTasks s' = runningTasks s" "active s' = active s" "started s' = started s"
      "requested s' = requested s"
  shows "unseen name s (exec_callback opts c err out s')"
proof (cases c)
  case NpmPrune
  show ?thesis
  proof (cases err)
    case None
    with NpmPrune fr show ?thesis
      by (simp add: prune_callback_def split del: if_split) (rule unseen_frame; simp)
  next
    case (Some e)
    with NpmPrune show ?thesis
      by (simp add: prune_callback_def) (rule unseen_rebundleJs_frame [OF rt ni]; simp add: fr)
  qed
next
  case NpmInstall
  show ?thesis
  proof (cases err)
    case None
    with NpmInstall show ?thesis
      by (simp add: install_callback_def split del: if_split)
         (rule unseen_rebundleJs_frame [OF rt ni]; simp add: fr)
  next
    case (Some e)
    with NpmInstall show ?thesis
      by (simp add: install_callback_def) (rule unseen_rebundleJs_frame [OF rt ni]; simp add: fr)
  qed
qed

lemma unseen_update_handler:
  assumes rt: "runningTasks s name = Some b" and ni: "\<not> inherited name" and up: "update_handler opts fs s = Inr t"
  shows "unseen name s t"
proof (cases "length (nodeModuleChanges fs) \<noteq> length fs")
  case False
  with up have "t = s" by (simp add: update_handler_def)
  then show ?thesis by (simp add: unseen_frame)
next
  case True
  show ?thesis
  proof (cases "length (packageJsonChanges fs) > 0")
    case False
    with True up have "t = rebundleJs opts (gutil_log opts [(Yellow, Str ''Javascript changed detected'')] s)"
      by (simp add: update_handler_def)
    then show ?thesis by simp (rule unseen_rebundleJs_frame [OF rt ni]; simp)
  next
    case pj: True
    with True up show ?thesis
      by (auto simp: update_handler_def split: option.splits intro!: unseen_frame)
  qed
qed

lemma unseen_finish:
  assumes inv: "coalescer_inv s" and rt: "runningTasks s name = Some b"
    and mem: "(n, cb) \<in> set (active s)" and other: "\<not> queued_run_of name (n, cb)"
  shows "unseen name s (run_callback opts cb oc (s\<lparr>active := remove1 (n, cb) (active s)\<rparr>))"
proof (cases cb)
  case StartWatching
  then show ?thesis using other
    by (simp add: start_watching_def unseen_def launches_def filter_remove1_other)
next
  case (Requeue n' st)
  with inv mem have nn: "n' = n" by (auto simp: coalescer_inv_def)
  with other Requeue have ne: "n \<noteq> name" by simp
  let ?s1 = "outputBuildCompleteMessage opts st (s\<lparr>active := remove1 (n, cb) (active s)\<rparr>)"
  let ?s2 = "?s1\<lparr>runningTasks := (runningTasks ?s1)(n := None)\<rparr>"
  have u2: "unseen name s ?s2"
    using other ne by (simp add: unseen_def launches_def filter_remove1_other)
  have u3: "unseen name s (runOrQueue n ?s2)"
    using u2 ne by (simp add: unseen_def runOrQueue_other)
  show ?thesis using Requeue nn u2 u3
    by (simp add: requeue_callback_def Let_def)
qed

lemma unseen_step:
  assumes inv: "coalescer_inv s" and rt: "runningTasks s name = Some b"
    and ni: "\<not> inherited name"
    and st: "step opts e s = Some t" and nc: "\<not> completes name e"
  shows "unseen name s t"
proof (cases e)
  case (Tick d)
  with st show ?thesis by (auto intro!: unseen_frame)
next
  case WatchTask
  with st show ?thesis by (auto simp: unseen_def launches_def watch_task_def gulp_start_def)
next
  case JsTask
  with st show ?thesis by (auto intro!: unseen_frame)
next
  case (Request n)
  with st rt ni show ?thesis by (auto intro: unseen_runOrQueue)
next
  case (Changed w)
  with st rt ni show ?thesis by (auto split: if_splits intro: unseen_watch_callback)
next
  case (Update fs)
  with st rt ni show ?thesis
    by (auto split: option.splits if_splits sum.splits intro: unseen_update_handler)
next
  case (ExecDone c err out)
  with st have "t = exec_callback opts c err out (s\<lparr>execs := remove1 c (execs s)\<rparr>)"
    by (auto split: if_splits)
  then show ?thesis by simp (rule unseen_exec_callback [OF rt ni]; simp)
next
  case (Finish n cb oc)
  with st nc inv rt show ?thesis by (auto split: if_splits intro: unseen_finish)
qed

lemma unseen_run:
  assumes "coalescer_inv s" and "runningTasks s name = Some b" and "run opts es s = Some s'"
    and "\<forall>e\<in>set es. \<not> completes name e" and "\<not> inherited name"
  shows "filter (queued_run_of name) (active s') = filter (queued_run_of name) (active s) \<and>
         launches name s' = launches name s \<and>
         count_list (requested s) name \<le> count_list (requested s') name \<and>
         runningTasks s' name =
           Some (b \<or> count_list (requested s) name < count_list (requested s') name)"
  using assms
proof (induction es arbitrary: s b)
  case Nil
  then show ?case by simp
next
  case (Cons e es)
  from Cons.prems(3) obtain t where st: "step opts e s = Some t" and rn: "run opts es t = Some s'"
    by (auto split: option.splits)
  from Cons.prems have nc: "\<not> completes name e" and ncs: "\<forall>e\<in>set es. \<not> completes name e"
    by simp_all
  have invt: "coalescer_inv t" using Cons.prems(1) st by (rule coalescer_inv_step)
  have u: "unseen name s t" using Cons.prems(1,2,5) st nc by (rule unseen_step)
  then obtain b' where rt': "runningTasks t name = Some b'"
    using Cons.prems(2) by (auto simp: unseen_def)
  note ih = Cons.IH [OF invt rt' rn ncs Cons.prems(5)]
  from u Cons.prems(2) rt' ih show ?case
    by (auto simp: unseen_def)
qed

lemma inflight_entry:
  assumes "coalescer_inv s" and "(name, Requeue n' st) \<in> set (active s)"
  shows "(\<exists>b. runningTasks s name = Some b) \<and> \<not> inherited name"
proof -
  have "0 < executing name s"
    unfolding executing_def using assms(2) by (rule filter_pos) simp
  with assms(1) show ?thesis by (auto simp: coalescer_inv_def split: if_splits)
qed

lemma finish_requeue:
  assumes "(name, Requeue name st) \<in> set (active s)"
  shows "step opts (Finish name (Requeue name st) oc) s =
         Some (let s1 = outputBuildCompleteMessage opts st
                          (s\<lparr>active := remove1 (name, Requeue name st) (active s)\<rparr>);
                   s2 = s1\<lparr>runningTasks := (runningTasks s)(name := None)\<rparr>
               in if (case runningTasks s name of Some b \<Rightarrow> b | None \<Rightarrow> inherited name)
                  then runOrQueue name s2 else s2)"
  using assms by (simp add: requeue_callback_def Let_def)

text \<open>
  Where every run reports its own end, \<^verbatim>\<open>runOrQueue\<close> does what its comment says. Let
  a run of task \<open>name\<close> be in flight in a reachable state \<open>s\<close>, and let any events
  follow that do not end that run and that call \<^verbatim>\<open>runOrQueue(name)\<close> at least once
  (\<open>requested\<close> counts the calls; the events may concern other tasks too). Then no run
  of the task is launched during those events, and the call of the callback of the run in
  flight, whatever the outcome, launches exactly one further run, however many calls there
  were: the launches of the task are those of \<open>s\<close> plus one, started at the time of
  that call, hence after every one of the requests; that run is then the only one in
  flight and its flag is clear.
\<close>

lemma coalesced_rerun:
  assumes reach: "run opts es0 init = Some s"
    and fl: "(name, Requeue name st) \<in> set (active s)"
    and rn: "run opts es s = Some s'"
    and nc: "\<forall>e\<in>set es. \<not> completes name e"
    and req: "count_list (requested s) name < count_list (requested s') name"
  shows "launches name s' = launches name s \<and>
         (\<exists>s''. step opts (Finish name (Requeue name st) oc) s' = Some s'' \<and>
            launches name s'' = launches name s @ [(name, Requeue name (clock s'))] \<and>
            executing name s'' = 1 \<and> runningTasks s'' name = Some False)"
proof -
  from reach have inv: "coalescer_inv s" by (rule reachable_inv)
  from inflight_entry [OF inv fl] obtain b where rt: "runningTasks s name = Some b"
    and ni: "\<not> inherited name"
    by blast
  note u = unseen_run [OF inv rt rn nc ni]
  from u req have pend: "runningTasks s' name = Some True" by simp
  from u have la: "launches name s' = launches name s" by simp
  have "(name, Requeue name st) \<in> set (filter (queued_run_of name) (active s))"
    using fl by simp
  with u have "(name, Requeue name st) \<in> set (filter (queued_run_of name) (active s'))"
    by simp
  then have fl': "(name, Requeue name st) \<in> set (active s')"
    by simp
  have inv': "coalescer_inv s'" using inv rn by (rule coalescer_inv_run)
  let ?s1 = "outputBuildCompleteMessage opts st
               (s'\<lparr>active := remove1 (name, Requeue name st) (active s')\<rparr>)"
  let ?s2 = "?s1\<lparr>runningTasks := (runningTasks s')(name := None)\<rparr>"
  have stp: "step opts (Finish name (Requeue name st) oc) s' = Some (runOrQueue name ?s2)"
    using finish_requeue [OF fl', of opts oc] pend by (simp add: Let_def)
  have idle: "runningTasks ?s2 name = None" by simp
  note rq = runOrQueue_idle [OF idle ni]
  have l2: "launches name (runOrQueue name ?s2) = launches name s' @ [(name, Requeue name (clock s'))]"
    using rq by (simp add: launches_def)
  have rt2: "runningTasks (runOrQueue name ?s2) name = Some False"
    using rq by simp
  have inv2: "coalescer_inv (runOrQueue name ?s2)" using inv' stp by (rule coalescer_inv_step)
  have "executing name (runOrQueue name ?s2) = 1"
    using executing_entry [OF inv2, of name] rt2 ni by simp
  with stp l2 rt2 la show ?thesis by simp
qed

lemma coalesced_rerun_example:
  "\<exists>s s' s''.
     run (defaultOptions ''/srv'') [Request ''html-less''] init = Some s \<and>
     run (defaultOptions ''/srv'')
       [Request ''html-less'', Tick 100, Request ''html-less'', Request ''html-less''] s = Some s' \<and>
     count_list (requested s') ''html-less'' = count_list (requested s) ''html-less'' + 3 \<and>
     step (defaultOptions ''/srv'') (Finish ''html-less'' (Requeue ''html-less'' 0) Succeeded) s' = Some s'' \<and>
     launches ''html-less'' s'' =
       [(''html-less'', Requeue ''html-less'' 0), (''html-less'', Requeue ''html-less'' 100)]"
proof -
  let ?o = "defaultOptions ''/srv''"
  let ?es = "[Request ''html-less'', Tick 100, Request ''html-less'', Request ''html-less'']"
  obtain s where r0: "run ?o [Request ''html-less''] init = Some s" by simp
  obtain s' where r1: "run ?o ?es s = Some s'" by simp
  have fl: "(''html-less'', Requeue ''html-less'' 0) \<in> set (active s)"
    using r0 by (auto simp: runOrQueue_def gulp_start_def init_def inherited_def
        object_prototype_def)
  have nc: "\<forall>e\<in>set ?es. \<not> completes ''html-less'' e" by simp
  have c0: "count_list (requested s) ''html-less'' = 1"
    using r0 by (auto simp: init_def)
  have c1: "count_list (requested s') ''html-less'' = 4"
    using r0 r1 by (auto simp: init_def)
  have l0: "launches ''html-less'' s = [(''html-less'', Requeue ''html-less'' 0)]"
    using r0 by (auto simp: runOrQueue_def gulp_start_def init_def launches_def inherited_def
        object_prototype_def)
  have ck: "clock s' = 100"
    using r0 r1 by (auto simp: init_def)
  have req: "count_list (requested s) ''html-less'' < count_list (requested s') ''html-less''"
    using c0 c1 by simp
  from coalesced_rerun [OF r0 fl r1 nc req, of Succeeded]
  obtain s'' where st: "step ?o (Finish ''html-less'' (Requeue ''html-less'' 0) Succeeded) s' = Some s''"
    and l2: "launches ''html-less'' s'' =
             launches ''html-less'' s @ [(''html-less'', Requeue ''html-less'' (clock s'))]"
    by blast
  from l2 l0 ck have "launches ''html-less'' s'' =
       [(''html-less'', Requeue ''html-less'' 0), (''html-less'', Requeue ''html-less'' 100)]"
    by simp
  moreover from c0 c1
  have "count_list (requested s') ''html-less'' = count_list (requested s) ''html-less'' + 3"
    by simp
  ultimately show ?thesis using r0 r1 st by blast
qed

section \<open>The end of a run\<close>

lemma finish_outcome:
  "step opts (Finish n cb oc) s = step opts (Finish n cb oc') s"
  by (cases cb) simp_all

text \<open>
  Where every run reports its own end, a failure is reported like a success. In a
  reachable state, let a run of task \<open>name\<close> that \<^verbatim>\<open>runOrQueue\<close> started be in
  flight. The call of its callback after a failure is the same step as after a success.
  The entries of the other tasks and their runs in flight are as before, and so are the
  bundler, the child processes and the watchers. If the flag of the task was set, the task
  is requested once more: one request, one launch, one run in flight, the flag clear.
  Otherwise nothing is requested or launched and the task has no entry and no run.
\<close>

lemma failed_run_completion:
  assumes reach: "run opts es0 init = Some s"
    and fl: "(name, Requeue name st) \<in> set (active s)"
  shows "step opts (Finish name (Requeue name st) (Failed err)) s =
           step opts (Finish name (Requeue name st) Succeeded) s \<and>
         (\<exists>t. step opts (Finish name (Requeue name st) (Failed err)) s = Some t \<and>
            (\<forall>n. n \<noteq> name \<longrightarrow>
               runningTasks t n = runningTasks s n \<and> executing n t = executing n s) \<and>
            bundlerInstance t = bundlerInstance s \<and> execs t = execs s \<and>
            watchers t = watchers s \<and>
            (if runningTasks s name = Some True
             then requested t = requested s @ [name] \<and>
                  launches name t = launches name s @ [(name, Requeue name (clock s))] \<and>
                  runningTasks t name = Some False \<and> executing name t = 1
             else requested t = requested s \<and> launches name t = launches name s \<and>
                  runningTasks t name = None \<and> executing name t = 0))"
proof -
  from reach have inv: "coalescer_inv s" by (rule reachable_inv)
  let ?e = "Finish name (Requeue name st) (Failed err)"
  let ?s1 = "outputBuildCompleteMessage opts st
               (s\<lparr>active := remove1 (name, Requeue name st) (active s)\<rparr>)"
  let ?s2 = "?s1\<lparr>runningTasks := (runningTasks s)(name := None)\<rparr>"
  let ?t = "if runningTasks s name = Some True then runOrQueue name ?s2 else ?s2"
  from inflight_entry [OF inv fl] obtain b where rt: "runningTasks s name = Some b"
    and ni: "\<not> inherited name"
    by blast
  have stp: "step opts ?e s = Some ?t"
    using finish_requeue [OF fl, of opts "Failed err"] rt by (auto simp: Let_def)
  have invt: "coalescer_inv ?t" using inv stp by (rule coalescer_inv_step)
  have idle: "runningTasks ?s2 name = None" by simp
  note rq = runOrQueue_idle [OF idle ni]
  have other: "runningTasks ?t n = runningTasks s n \<and> executing n ?t = executing n s"
    if "n \<noteq> name" for n
    using that rq by (auto simp: executing_def filter_remove1_other)
  have frame: "bundlerInstance ?t = bundlerInstance s \<and> execs ?t = execs s \<and> watchers ?t = watchers s"
    by simp
  have own: "if runningTasks s name = Some True
             then requested ?t = requested s @ [name] \<and>
                  launches name ?t = launches name s @ [(name, Requeue name (clock s))] \<and>
                  runningTasks ?t name = Some False \<and> executing name ?t = 1
             else requested ?t = requested s \<and> launches name ?t = launches name s \<and>
                  runningTasks ?t name = None \<and> executing name ?t = 0"
  proof (cases "runningTasks s name = Some True")
    case True
    then have t: "?t = runOrQueue name ?s2" by simp
    have "runningTasks ?t name = Some False" unfolding t using rq by simp
    moreover from this executing_entry [OF invt, of name] ni have "executing name ?t = 1" by simp
    moreover have "launches name ?t = launches name s @ [(name, Requeue name (clock s))]"
      unfolding t using rq by (simp add: launches_def)
    moreover have "requested ?t = requested s @ [name]" unfolding t by simp
    ultimately show ?thesis using True by simp
  next
    case False
    then have t: "?t = ?s2" by simp
    have "runningTasks ?t name = None" unfolding t by simp
    moreover from this invt have "executing name ?t = 0" by (simp add: coalescer_inv_def)
    moreover have "launches name ?t = launches name s" unfolding t by (simp add: launches_def)
    moreover have "requested ?t = requested s" unfolding t by simp
    ultimately show ?thesis using False by simp
  qed
  from stp other frame own finish_outcome [of opts name "Requeue name st" "Failed err" s Succeeded]
  show ?thesis by blast
qed

lemma failed_run_completion_example:
  "\<exists>s t.
     run (defaultOptions ''/srv'') [Request ''html-only'', Tick 40, Request ''html-only''] init = Some s \<and>
     runningTasks s ''html-only'' = Some True \<and>
     step (defaultOptions ''/srv'')
       (Finish ''html-only'' (Requeue ''html-only'' 0) (Failed ''EACCES: permission denied'')) s = Some t \<and>
     requested t = requested s @ [''html-only''] \<and>
     launches ''html-only'' t = launches ''html-only'' s @ [(''html-only'', Requeue ''html-only'' 40)] \<and>
     runningTasks t ''html-only'' = Some False"
proof -
  let ?o = "defaultOptions ''/srv''"
  obtain s where r: "run ?o [Request ''html-only'', Tick 40, Request ''html-only''] init = Some s"
    by simp
  have fl: "(''html-only'', Requeue ''html-only'' 0) \<in> set (active s)"
    using r by (auto simp: runOrQueue_def gulp_start_def init_def Let_def inherited_def
        object_prototype_def)
  have pend: "runningTasks s ''html-only'' = Some True"
    using r by (auto simp: runOrQueue_def gulp_start_def init_def Let_def inherited_def
        object_prototype_def)
  have ck: "clock s = 40" using r by (auto simp: init_def)
  from failed_run_completion [OF r fl, of "''EACCES: permission denied''"]
  obtain t where
    st: "step ?o (Finish ''html-only'' (Requeue ''html-only'' 0)
                    (Failed ''EACCES: permission denied'')) s = Some t"
    and own: "if runningTasks s ''html-only'' = Some True
              then requested t = requested s @ [''html-only''] \<and>
                   launches ''html-only'' t =
                     launches ''html-only'' s @ [(''html-only'', Requeue ''html-only'' (clock s))] \<and>
                   runningTasks t ''html-only'' = Some False \<and> executing ''html-only'' t = 1
              else requested t = requested s \<and> launches ''html-only'' t = launches ''html-only'' s \<and>
                   runningTasks t ''html-only'' = None \<and> executing ''html-only'' t = 0"
    by blast
  from own pend ck have
    "requested t = requested s @ [''html-only'']"
    "launches ''html-only'' t = launches ''html-only'' s @ [(''html-only'', Requeue ''html-only'' 40)]"
    "runningTasks t ''html-only'' = Some False"
    by simp_all
  then show ?thesis using r pend st by blast
qed

section \<open>What gulp 3 calls\<close>

text \<open>
  For a run that is alone, held by gulp and the latest one started, the stop of the
  orchestrator is the event that reports the end of that run.
\<close>

lemma lone_run_stop:
  assumes "active s = [(name, cb)]" and "started s \<noteq> []" and "last (started s) = (name, cb)"
  shows "step opts (Finish name cb oc) s = Some (orchestrator_stop opts oc s)"
  using assms by (simp add: orchestrator_stop_def doneCallback_def)

lemma watching_eq:
  "run opts [WatchTask, Finish ''build'' StartWatching Succeeded] init = Some (watching opts)"
  by (simp add: watching_def orchestrator_stop_def doneCallback_def watch_task_def gulp_start_def
      bundler_def init_def Let_def)

text \<open>
  A call that gulp 3 makes when it stops is one of the calls that \<open>step\<close> makes: where
  the run started last is still held, the stop and the event that reports the end of that
  run lead to states that differ in the runs held only.
\<close>

lemma run_callback_active:
  "(run_callback opts cb oc (s\<lparr>active := a\<rparr>))\<lparr>active := []\<rparr> =
   (run_callback opts cb oc s)\<lparr>active := []\<rparr>"
  by (cases cb)
    (simp_all add: requeue_callback_def runOrQueue_def gulp_start_def
      outputBuildCompleteMessage_def gutil_log_def Let_def start_watching_def)

lemma stop_is_finish:
  assumes "(name, cb) \<in> set (active s)" and "doneCallback s = Some cb"
  shows "\<exists>t. step opts (Finish name cb oc) s = Some t \<and>
             (orchestrator_stop opts oc s)\<lparr>active := []\<rparr> = t\<lparr>active := []\<rparr>"
  using assms run_callback_active [of opts cb oc "[]" s]
    run_callback_active [of opts cb oc "remove1 (name, cb) (active s)" s]
  by (simp add: orchestrator_stop_def)

text \<open>
  C1 fails on the code, run by gulp 3. Watch mode is at work. An asset changes, and the
  run of \<^verbatim>\<open>html-assets\<close> starts. While it is in flight a less file changes: the run of
  \<^verbatim>\<open>html-less\<close> starts, and its callback takes the place of the callback of the
  asset run. Two more assets change: the flag of \<^verbatim>\<open>html-assets\<close> is set. Both
  runs end well and gulp stops. It calls the callback of the less run, and no other: one
  completion line is logged, timed from the start of the less run, and the entry of
  \<^verbatim>\<open>html-less\<close> is deleted. The callback of the asset run is never called: no further
  run of \<^verbatim>\<open>html-assets\<close> is started for the two requests, gulp holds no run, the entry
  of \<^verbatim>\<open>html-assets\<close> stays, and a later change of an asset starts nothing either.
\<close>

theorem superseded_run_is_not_rerun:
  "(case run (defaultOptions ''/srv'')
           [Changed Assets, Tick 10, Changed AllLess, Tick 5, Changed Assets, Changed Assets]
           (watching (defaultOptions ''/srv'')) of
      None \<Rightarrow> False
    | Some s \<Rightarrow>
        active s = [(''html-assets'', Requeue ''html-assets'' 0),
                    (''html-less'', Requeue ''html-less'' 10)] \<and>
        runningTasks s ''html-assets'' = Some True \<and>
        count_list (requested s) ''html-assets'' = 3 \<and>
        (let t = orchestrator_stop (defaultOptions ''/srv'') Succeeded s in
         log t = log s @ [[(Green, Str ''Build finished successfully in ''),
                           (Yellow, Elapsed (Ms 5))]] \<and>
         runningTasks t ''html-less'' = None \<and>
         runningTasks t ''html-assets'' = Some True \<and>
         active t = [] \<and>
         launches ''html-assets'' t = [(''html-assets'', Requeue ''html-assets'' 0)] \<and>
         map_option (\<lambda>u. (active u, launches ''html-assets'' u, runningTasks u ''html-assets''))
           (run (defaultOptions ''/srv'') [Tick 1000, Changed Assets] t) =
           Some ([], [(''html-assets'', Requeue ''html-assets'' 0)], Some True)))"
  by (simp add: watching_def orchestrator_stop_def doneCallback_def watch_task_def
      gulp_start_def bundler_def init_def Let_def start_watching_def defaultOptions_def
      runOrQueue_def gutil_log_def inherited_def object_prototype_def requeue_callback_def
      outputBuildCompleteMessage_def buildCompleteMessage_def formattedTimeDiff_def
      launches_def)

text \<open>
  C3 fails on the code, run by gulp 3. Watch mode is at work. An asset changes, and the
  run of \<^verbatim>\<open>html-assets\<close> starts. While it is in flight a less file changes: the run of
  \<^verbatim>\<open>html-less\<close> starts, and its callback takes the place of the callback of the
  asset run. Another asset changes: the flag of \<^verbatim>\<open>html-assets\<close> is set. Then the
  asset run fails, and gulp stops with the error. It calls the callback of the less run:
  the entry of \<^verbatim>\<open>html-less\<close>, the other task, is deleted, while the entry of the task
  that failed is not cleared, its flag is not honoured and no request is made for it.
\<close>

theorem failure_reported_to_other_task:
  "(case run (defaultOptions ''/srv'')
           [Changed Assets, Tick 10, Changed AllLess, Tick 5, Changed Assets]
           (watching (defaultOptions ''/srv'')) of
      None \<Rightarrow> False
    | Some s \<Rightarrow>
        active s = [(''html-assets'', Requeue ''html-assets'' 0),
                    (''html-less'', Requeue ''html-less'' 10)] \<and>
        runningTasks s ''html-assets'' = Some True \<and>
        runningTasks s ''html-less'' = Some False \<and>
        (let t = orchestrator_stop (defaultOptions ''/srv'')
                   (Failed ''EACCES: permission denied'') s in
         runningTasks t ''html-assets'' = Some True \<and>
         runningTasks t ''html-less'' = None \<and>
         requested t = requested s \<and>
         launches ''html-assets'' t = [(''html-assets'', Requeue ''html-assets'' 0)]))"
  by (simp add: watching_def orchestrator_stop_def doneCallback_def watch_task_def
      gulp_start_def bundler_def init_def Let_def start_watching_def defaultOptions_def
      runOrQueue_def gutil_log_def inherited_def object_prototype_def requeue_callback_def
      outputBuildCompleteMessage_def buildCompleteMessage_def formattedTimeDiff_def
      launches_def)

section \<open>The completion line\<close>

text \<open>
  C7, as the source has it. Every call of the callback that \<^verbatim>\<open>runOrQueue\<close> gave to
  \<^verbatim>\<open>gulp.start\<close> with a run, whatever the outcome that gulp reports and whatever the
  state, adds exactly one line to the log, the green \<^verbatim>\<open>Build finished successfully in\<close>
  followed by the time elapsed since the start of that run, in yellow; with
  \<^verbatim>\<open>options.silent\<close> it adds nothing. The line does not depend on the outcome. A
  further run that the callback starts logs nothing at its start.
\<close>

theorem completion_callback_line:
  "log (run_callback opts (Requeue name st) oc s) =
     (if silent opts = JBool True then log s
      else log s @ [[(Green, Str ''Build finished successfully in ''),
                     formattedTimeDiff st (clock s)]])"
  by (simp add: requeue_callback_def Let_def outputBuildCompleteMessage_def gutil_log_def
      buildCompleteMessage_def)

theorem completion_callback_line_witness:
  "log (run_callback (defaultOptions ''/srv'') (Requeue ''html-only'' 0)
          (Failed ''EACCES: permission denied'') (init\<lparr>clock := 61500\<rparr>)) =
     [[(Green, Str ''Build finished successfully in ''), (Yellow, Elapsed (Mins 61500))]] \<and>
   log (run_callback ((defaultOptions ''/srv'')\<lparr>silent := JBool True\<rparr>)
          (Requeue ''html-only'' 0) Succeeded (init\<lparr>clock := 61500\<rparr>)) = []"
proof -
  have "log (run_callback (defaultOptions ''/srv'') (Requeue ''html-only'' 0)
          (Failed ''EACCES: permission denied'') (init\<lparr>clock := 61500\<rparr>)) =
     [[(Green, Str ''Build finished successfully in ''), (Yellow, Elapsed (Mins 61500))]]"
    using completion_callback_line [of "defaultOptions ''/srv''" "''html-only''" 0
        "Failed ''EACCES: permission denied''" "init\<lparr>clock := 61500\<rparr>"]
    by (simp add: defaultOptions_def init_def formattedTimeDiff_def)
  moreover have "log (run_callback ((defaultOptions ''/srv'')\<lparr>silent := JBool True\<rparr>)
          (Requeue ''html-only'' 0) Succeeded (init\<lparr>clock := 61500\<rparr>)) = []"
    using completion_callback_line [of "(defaultOptions ''/srv'')\<lparr>silent := JBool True\<rparr>"
        "''html-only''" 0 Succeeded "init\<lparr>clock := 61500\<rparr>"]
    by (simp add: defaultOptions_def init_def)
  ultimately show ?thesis by simp
qed

text \<open>
  C7 as stated fails where it wants the line of a failed run told apart from the line of a
  successful one: a run of \<^verbatim>\<open>html-less\<close> that fails after 250 ms is logged with the very
  line of one that succeeds after 250 ms.
\<close>

theorem failed_run_line_counterexample:
  "map_option log
     (run (defaultOptions ''/srv'')
        [Request ''html-less'', Tick 250,
         Finish ''html-less'' (Requeue ''html-less'' 0) (Failed ''less: parse error'')] init) =
     Some [[(Green, Str ''Build finished successfully in ''), (Yellow, Elapsed (Ms 250))]] \<and>
   map_option log
     (run (defaultOptions ''/srv'')
        [Request ''html-less'', Tick 250,
         Finish ''html-less'' (Requeue ''html-less'' 0) Succeeded] init) =
     Some [[(Green, Str ''Build finished successfully in ''), (Yellow, Elapsed (Ms 250))]]"
  by (simp add: runOrQueue_def gulp_start_def init_def Let_def requeue_callback_def
        outputBuildCompleteMessage_def gutil_log_def buildCompleteMessage_def
        formattedTimeDiff_def defaultOptions_def inherited_def object_prototype_def)

section \<open>The update handler\<close>

lemma all_in_node_modules:
  "(length (nodeModuleChanges files) = length files) = (\<forall>f\<in>set files. inNodeModules f)"
proof
  assume "length (nodeModuleChanges files) = length files"
  then show "\<forall>f\<in>set files. inNodeModules f"
    unfolding nodeModuleChanges_def
    by (metis length_filter_less nat_neq_iff)
next
  assume "\<forall>f\<in>set files. inNodeModules f"
  then show "length (nodeModuleChanges files) = length files"
    by (simp add: nodeModuleChanges_def)
qed

lemma rebundleJs_fields [simp]:
  "requested (rebundleJs opts s) = requested s @ [''html-js'']"
  "execs (rebundleJs opts s) = execs s"
  "bundlerInstance (rebundleJs opts s) = bundlerInstance s"
  "created (rebundleJs opts s) = created s"
  "closedSessions (rebundleJs opts s) = closedSessions s"
  "bundles (rebundleJs opts s) = bundles s"
  "watchers (rebundleJs opts s) = watchers s"
  "watchJs (rebundleJs opts s) = watchJs s"
  "clock (rebundleJs opts s) = clock s"
  by (simp_all add: rebundleJs_def)

lemma update_noise:
  "\<forall>f\<in>set files. inNodeModules f \<Longrightarrow> update_handler opts files s = Inr s"
  by (simp add: update_handler_def all_in_node_modules)

lemma update_script:
  assumes "\<exists>f\<in>set files. \<not> inNodeModules f" and "packageJsonChanges files = []"
  shows "update_handler opts files s =
         Inr (rebundleJs opts (gutil_log opts [(Yellow, Str ''Javascript changed detected'')] s))"
proof -
  from assms(1) have "length (nodeModuleChanges files) \<noteq> length files"
    by (simp add: all_in_node_modules)
  with assms(2) show ?thesis by (simp add: update_handler_def)
qed

lemma update_manifest:
  assumes "\<exists>f\<in>set files. \<not> inNodeModules f" and "packageJsonChanges files \<noteq> []"
    and "bundlerInstance s = Some b"
  shows "update_handler opts files s =
         Inr (exec NpmPrune
                (gutil_log opts [(Yellow, Str ''package.json change detected, running npm prune'')]
                   (s\<lparr>closedSessions := closedSessions s @ [sid b], bundlerInstance := None\<rparr>)))"
proof -
  from assms(1) have "length (nodeModuleChanges files) \<noteq> length files"
    by (simp add: all_in_node_modules)
  with assms(2,3) show ?thesis by (simp add: update_handler_def)
qed

lemma prune_failed:
  "requested (prune_callback opts (Some e) out s) = requested s @ [''html-js''] \<and>
   execs (prune_callback opts (Some e) out s) = execs s"
  by (simp add: prune_callback_def)

lemma prune_done:
  "requested (prune_callback opts None out s) = requested s \<and>
   execs (prune_callback opts None out s) = execs s @ [NpmInstall]"
  by (simp add: prune_callback_def)

lemma install_ended:
  "requested (install_callback opts err out s) = requested s @ [''html-js''] \<and>
   execs (install_callback opts err out s) = execs s"
  by (cases err) (simp_all add: install_callback_def)

lemma length_remove1_snoc: "length (remove1 c (xs @ [c])) = length xs"
  by (simp add: length_remove1)

text \<open>
  C4. Let the update handler be called with a batch of paths in a state where the bundler
  is a watchified instance. If every path of the batch contains \<^verbatim>\<open>/node_modules/\<close>, the
  state is unchanged: nothing is logged, requested or started. If some path does not and
  no path is a manifest, the handler calls \<^verbatim>\<open>runOrQueue('html-js')\<close> once. If some path
  does not and some path is a manifest, the handler itself requests nothing and starts
  \<^verbatim>\<open>npm prune\<close>; when that fails its callback requests the rebuild once; when it
  succeeds its callback starts \<^verbatim>\<open>npm install\<close>, whose callback requests the rebuild once,
  whether the installation failed or not. In each case the batch gives one request.
\<close>

theorem update_batch_requests:
  assumes live: "bundlerInstance s = Some b" "watchified b"
  shows
    "((\<forall>f\<in>set files. inNodeModules f) \<longrightarrow> step opts (Update files) s = Some s) \<and>
     ((\<exists>f\<in>set files. \<not> inNodeModules f) \<and> packageJsonChanges files = [] \<longrightarrow>
        (\<exists>t. step opts (Update files) s = Some t \<and>
             requested t = requested s @ [''html-js''] \<and> execs t = execs s)) \<and>
     ((\<exists>f\<in>set files. \<not> inNodeModules f) \<and> packageJsonChanges files \<noteq> [] \<longrightarrow>
        (\<exists>t. step opts (Update files) s = Some t \<and>
             requested t = requested s \<and> execs t = execs s @ [NpmPrune]) \<and>
        (\<forall>e out. \<exists>t. run opts [Update files, ExecDone NpmPrune (Some e) out] s = Some t \<and>
             requested t = requested s @ [''html-js''] \<and> length (execs t) = length (execs s)) \<and>
        (\<forall>out err out'. \<exists>t.
             run opts [Update files, ExecDone NpmPrune None out, ExecDone NpmInstall err out'] s = Some t \<and>
             requested t = requested s @ [''html-js''] \<and> length (execs t) = length (execs s)))"
proof (intro conjI impI)
  assume "\<forall>f\<in>set files. inNodeModules f"
  then show "step opts (Update files) s = Some s"
    using live by (simp add: update_noise)
next
  assume "(\<exists>f\<in>set files. \<not> inNodeModules f) \<and> packageJsonChanges files = []"
  then show "\<exists>t. step opts (Update files) s = Some t \<and>
             requested t = requested s @ [''html-js''] \<and> execs t = execs s"
    using live by (simp add: update_script)
next
  assume a: "(\<exists>f\<in>set files. \<not> inNodeModules f) \<and> packageJsonChanges files \<noteq> []"
  let ?s1 = "exec NpmPrune
                (gutil_log opts [(Yellow, Str ''package.json change detected, running npm prune'')]
                   (s\<lparr>closedSessions := closedSessions s @ [sid b], bundlerInstance := None\<rparr>))"
  from a live have st: "step opts (Update files) s = Some ?s1"
    by (simp add: update_manifest)
  show "\<exists>t. step opts (Update files) s = Some t \<and>
             requested t = requested s \<and> execs t = execs s @ [NpmPrune]"
    using st by simp
  show "\<forall>e out. \<exists>t. run opts [Update files, ExecDone NpmPrune (Some e) out] s = Some t \<and>
             requested t = requested s @ [''html-js''] \<and> length (execs t) = length (execs s)"
    using st by (simp add: prune_failed length_remove1)
  show "\<forall>out err out'. \<exists>t.
             run opts [Update files, ExecDone NpmPrune None out, ExecDone NpmInstall err out'] s = Some t \<and>
             requested t = requested s @ [''html-js''] \<and> length (execs t) = length (execs s)"
    using st by (simp add: prune_done install_ended length_remove1)
qed

lemma watch_started:
  "run opts [WatchTask] init = Some s \<Longrightarrow>
   (\<exists>b. bundlerInstance s = Some b \<and> watchified b \<and> sid b = 0) \<and>
   requested s = [] \<and> execs s = [] \<and> created s = 1 \<and> closedSessions s = [] \<and>
   bundles s = [] \<and> watchers s = []"
  by (auto simp: watch_task_def bundler_def init_def gulp_start_def Let_def)

theorem update_batch_requests_witness:
  "\<exists>s t1 t2 t3.
     run (defaultOptions ''/srv'') [WatchTask] init = Some s \<and> requested s = [] \<and>
     step (defaultOptions ''/srv'') (Update [''/srv/node_modules/left-pad/index.js'']) s = Some s \<and>
     step (defaultOptions ''/srv'')
       (Update [''/srv/app/main.jsx'', ''/srv/node_modules/left-pad/index.js'']) s = Some t1 \<and>
     requested t1 = [''html-js''] \<and>
     run (defaultOptions ''/srv'')
       [Update [''/srv/package.json''], ExecDone NpmPrune (Some ''Error: EACCES'') []] s = Some t2 \<and>
     requested t2 = [''html-js''] \<and>
     run (defaultOptions ''/srv'')
       [Update [''/srv/package.json''], ExecDone NpmPrune None [],
        ExecDone NpmInstall None ''added 3 packages''] s = Some t3 \<and>
     requested t3 = [''html-js'']"
proof -
  let ?o = "defaultOptions ''/srv''"
  let ?noise = "[''/srv/node_modules/left-pad/index.js'']"
  let ?mixed = "[''/srv/app/main.jsx'', ''/srv/node_modules/left-pad/index.js'']"
  let ?manifest = "[''/srv/package.json'']"
  obtain s where r: "run ?o [WatchTask] init = Some s" by simp
  from watch_started [OF r] obtain b where live: "bundlerInstance s = Some b" "watchified b"
    and rq: "requested s = []"
    by blast
  have n1: "\<forall>f\<in>set ?noise. inNodeModules f"
    by (simp add: inNodeModules_def indexOf_def)
  have n2: "(\<exists>f\<in>set ?mixed. \<not> inNodeModules f) \<and> packageJsonChanges ?mixed = []"
    by (simp add: inNodeModules_def indexOf_def packageJsonChanges_def isPackageJson_def basename_def)
  have n3: "(\<exists>f\<in>set ?manifest. \<not> inNodeModules f) \<and> packageJsonChanges ?manifest \<noteq> []"
    by (simp add: inNodeModules_def indexOf_def packageJsonChanges_def isPackageJson_def basename_def)
  from update_batch_requests [OF live, of ?noise ?o] n1
  have a: "step ?o (Update ?noise) s = Some s" by blast
  from update_batch_requests [OF live, of ?mixed ?o] n2 rq
  obtain t1 where b: "step ?o (Update ?mixed) s = Some t1" "requested t1 = [''html-js'']"
    by auto
  note m = update_batch_requests [OF live, of ?manifest ?o]
  from m n3 rq
  obtain t2 where c: "run ?o [Update ?manifest, ExecDone NpmPrune (Some ''Error: EACCES'') []] s = Some t2"
      "requested t2 = [''html-js'']"
    by (metis append_Nil)
  from m n3 rq
  obtain t3 where d: "run ?o [Update ?manifest, ExecDone NpmPrune None [],
        ExecDone NpmInstall None ''added 3 packages''] s = Some t3" "requested t3 = [''html-js'']"
    by (metis append_Nil)
  from r rq a b c d show ?thesis by blast
qed

section \<open>Splitting a path at its dots\<close>

lemma js_split_nonempty [simp]: "js_split sep s \<noteq> []"
  by (induction s) (auto split: list.splits)

lemma js_split_no_sep: "sep \<notin> set s \<Longrightarrow> js_split sep s = [s]"
  by (induction s) auto

lemma js_split_append_sep:
  "js_split sep (xs @ sep # ys) = js_split sep xs @ js_split sep ys"
proof (induction xs)
  case Nil
  show ?case by simp
next
  case (Cons c cs)
  obtain p ps where sp: "js_split sep cs = p # ps"
    using js_split_nonempty [of sep cs] by (cases "js_split sep cs") auto
  with Cons show ?case by simp
qed

lemma js_split_append_plain:
  "sep \<notin> set ys \<Longrightarrow>
   js_split sep (xs @ ys) = butlast (js_split sep xs) @ [last (js_split sep xs) @ ys]"
proof (induction xs)
  case Nil
  then show ?case by (simp add: js_split_no_sep)
next
  case (Cons c cs)
  obtain p ps where sp: "js_split sep cs = p # ps"
    using js_split_nonempty [of sep cs] by (cases "js_split sep cs") auto
  with Cons show ?case by (cases ps) auto
qed

lemma js_join_Cons: "js_join sep ((c # p) # ps) = c # js_join sep (p # ps)"
  by (cases ps) simp_all

lemma js_join_split: "js_join sep (js_split sep s) = s"
proof (induction s)
  case Nil
  show ?case by simp
next
  case (Cons c cs)
  obtain p ps where sp: "js_split sep cs = p # ps"
    using js_split_nonempty [of sep cs] by (cases "js_split sep cs") auto
  with Cons show ?case by (simp add: js_join_Cons)
qed

lemma js_join_last_two:
  "\<exists>pre. js_join sep (ps @ [p, q]) = pre @ p @ sep # q \<and> (pre = [] \<or> last pre = sep)"
proof (induction ps)
  case Nil
  show ?case by simp
next
  case (Cons a ps)
  then obtain pre where pre: "js_join sep (ps @ [p, q]) = pre @ p @ sep # q"
    "pre = [] \<or> last pre = sep"
    by blast
  then have "js_join sep ((a # ps) @ [p, q]) = (a @ sep # pre) @ p @ sep # q"
    by (cases ps) simp_all
  moreover have "last (a @ sep # pre) = sep" using pre(2) by auto
  ultimately show ?case by blast
qed

lemma js_join_last:
  "\<exists>pre. js_join sep (ps @ [q]) = pre @ q \<and> (pre = [] \<or> last pre = sep)"
proof (induction ps)
  case Nil
  show ?case by simp
next
  case (Cons a ps)
  then obtain pre where pre: "js_join sep (ps @ [q]) = pre @ q" "pre = [] \<or> last pre = sep"
    by blast
  then have "js_join sep ((a # ps) @ [q]) = (a @ sep # pre) @ q"
    by (cases ps) simp_all
  moreover have "last (a @ sep # pre) = sep" using pre(2) by auto
  ultimately show ?case by blast
qed

lemma last_part:
  "\<exists>pre. d = pre @ last (js_split sep d) \<and> (pre = [] \<or> last pre = sep)"
proof -
  have "js_split sep d = butlast (js_split sep d) @ [last (js_split sep d)]" by simp
  then have "js_join sep (js_split sep d) =
             js_join sep (butlast (js_split sep d) @ [last (js_split sep d)])"
    by simp
  with js_join_last [of sep "butlast (js_split sep d)" "last (js_split sep d)"]
  show ?thesis by (simp add: js_join_split)
qed

lemma last_two:
  assumes "1 < length xs"
  shows "\<exists>ys. xs = ys @ [xs ! (length xs - 2), xs ! (length xs - 1)]"
proof -
  from assms obtain ys b where xs: "xs = ys @ [b]" by (cases xs rule: rev_cases) auto
  with assms obtain zs a where ys: "ys = zs @ [a]" by (cases ys rule: rev_cases) auto
  have "xs = zs @ [xs ! (length xs - 2), xs ! (length xs - 1)]"
    unfolding xs ys by (simp add: nth_append)
  then show ?thesis ..
qed

lemma basename_append:
  assumes "CHR ''/'' \<notin> set b" and "b \<noteq> []" and "L = [] \<or> last L = CHR ''/''"
  shows "basename (L @ b) = b"
proof -
  have hd: "hd (rev b) \<noteq> CHR ''/''" using assms(1,2) by (metis hd_rev last_in_set)
  have "dropWhile (\<lambda>c. c = CHR ''/'') (rev b @ rev L) = rev b @ rev L"
    using assms(2) hd by (cases "rev b") auto
  moreover have "takeWhile (\<lambda>c. c \<noteq> CHR ''/'') (rev b @ rev L) =
                 rev b @ takeWhile (\<lambda>c. c \<noteq> CHR ''/'') (rev L)"
    using assms(1) by (intro takeWhile_append2) auto
  moreover have "takeWhile (\<lambda>c. c \<noteq> CHR ''/'') (rev L) = []"
    using assms(3) by (cases L rule: rev_cases) auto
  ultimately show ?thesis by (simp add: basename_def)
qed

lemma rev_dropWhile_last:
  "rev (dropWhile P xs) = [] \<or> \<not> P (last (rev (dropWhile P xs)))"
  by (induction xs) auto

lemma basename_decomp:
  "\<exists>d t. p = d @ basename p @ t \<and> set t \<subseteq> {CHR ''/''} \<and> (d = [] \<or> last d = CHR ''/'')"
proof -
  let ?r = "dropWhile (\<lambda>c. c = CHR ''/'') (rev p)"
  let ?d = "rev (dropWhile (\<lambda>c. c \<noteq> CHR ''/'') ?r)"
  have "p = rev ?r @ rev (takeWhile (\<lambda>c. c = CHR ''/'') (rev p))"
    by (metis rev_append rev_rev_ident takeWhile_dropWhile_id)
  moreover have "rev ?r = ?d @ rev (takeWhile (\<lambda>c. c \<noteq> CHR ''/'') ?r)"
    by (metis rev_append takeWhile_dropWhile_id)
  ultimately have "p = ?d @ basename p @ rev (takeWhile (\<lambda>c. c = CHR ''/'') (rev p))"
    by (simp add: basename_def)
  moreover have "set (rev (takeWhile (\<lambda>c. c = CHR ''/'') (rev p))) \<subseteq> {CHR ''/''}"
    by (auto dest: set_takeWhileD)
  moreover have "?d = [] \<or> last ?d = CHR ''/''"
    using rev_dropWhile_last [of "\<lambda>c. c \<noteq> CHR ''/''" ?r] by blast
  ultimately show ?thesis by blast
qed

lemma nth_last_two:
  "(ys @ [a, b]) ! (length (ys @ [a, b]) - 2) = a"
  "(ys @ [a, b]) ! (length (ys @ [a, b]) - 1) = b"
  "1 < length (ys @ [a, b])"
  by (simp_all add: nth_append)

lemma isPackageJson_exact:
  assumes "d = [] \<or> last d = CHR ''/''"
  shows "isPackageJson (d @ ''package.json'')"
proof -
  let ?L = "last (js_split CHR ''.'' d)"
  obtain pre where pre: "d = pre @ ?L" "pre = [] \<or> last pre = CHR ''.''"
    using last_part [of d "CHR ''.''"] by blast
  have L: "?L = [] \<or> last ?L = CHR ''/''"
  proof (cases "?L = []")
    case False
    with pre(1) have "last d = last ?L" by (metis last_appendR)
    moreover from False pre(1) have "d \<noteq> []" by auto
    ultimately show ?thesis using assms by simp
  qed simp
  have "d @ ''package.json'' = (d @ ''package'') @ CHR ''.'' # ''json''" by simp
  then have "js_split CHR ''.'' (d @ ''package.json'') =
             js_split CHR ''.'' (d @ ''package'') @ js_split CHR ''.'' ''json''"
    by (simp only: js_split_append_sep)
  also have "js_split CHR ''.'' ''json'' = [''json'']" by simp
  also have "js_split CHR ''.'' (d @ ''package'') =
             butlast (js_split CHR ''.'' d) @ [?L @ ''package'']"
    by (rule js_split_append_plain) simp
  finally have sp: "js_split CHR ''.'' (d @ ''package.json'') =
                    butlast (js_split CHR ''.'' d) @ [?L @ ''package'', ''json'']"
    by simp
  have bn: "basename (?L @ ''package'') = ''package''"
    using L by (intro basename_append) simp_all
  show ?thesis
    unfolding isPackageJson_def sp Let_def nth_last_two using bn by simp
qed

lemma isPackageJson_only:
  assumes "isPackageJson f"
  shows "f = ''package.json'' \<or> suffix ''/package.json'' f \<or> suffix ''.package.json'' f \<or>
         suffix ''/.json'' f"
proof -
  let ?ps = "js_split CHR ''.'' f"
  from assms have len: "1 < length ?ps"
    and bn: "basename (?ps ! (length ?ps - 2)) = ''package''"
    and js: "?ps ! (length ?ps - 1) = ''json''"
    by (auto simp: isPackageJson_def Let_def split: if_splits)
  from last_two [OF len] obtain ys where ys: "?ps = ys @ [?ps ! (length ?ps - 2), ''json'']"
    using js by auto
  let ?p = "?ps ! (length ?ps - 2)"
  from js_join_last_two [of "CHR ''.''" ys ?p "''json''"] ys
  obtain pre where f: "f = pre @ ?p @ ''.json''" and pre: "pre = [] \<or> last pre = CHR ''.''"
    using js_join_split [of "CHR ''.''" f] by auto
  from basename_decomp [of ?p] bn obtain d t where p: "?p = d @ ''package'' @ t"
    and t: "set t \<subseteq> {CHR ''/''}" and d: "d = [] \<or> last d = CHR ''/''"
    by auto
  show ?thesis
  proof (cases t rule: rev_cases)
    case (snoc t' c)
    with t have "c = CHR ''/''" by auto
    with snoc f p have "f = (pre @ d @ ''package'' @ t') @ ''/.json''" by simp
    then show ?thesis unfolding suffix_def by blast
  next
    case Nil
    with f p have fe: "f = pre @ d @ ''package.json''" by simp
    show ?thesis
    proof (cases d rule: rev_cases)
      case (snoc d' c)
      with d have "c = CHR ''/''" by simp
      with snoc fe have "f = (pre @ d') @ ''/package.json''" by simp
      then show ?thesis unfolding suffix_def by blast
    next
      case dn: Nil
      show ?thesis
      proof (cases pre rule: rev_cases)
        case Nil
        with dn fe show ?thesis by simp
      next
        case (snoc pre' c)
        with pre have "c = CHR ''.''" by simp
        with snoc dn fe have "f = pre' @ ''.package.json''" by simp
        then show ?thesis unfolding suffix_def by blast
      qed
    qed
  qed
qed

text \<open>
  What the test accepts, for a path that does not end in \<^verbatim>\<open>/.json\<close>: beside the paths
  whose last component is \<^verbatim>\<open>package.json\<close>, those that end in
  \<^verbatim>\<open>.package.json\<close>.
\<close>

lemma isPackageJson_dotted:
  "isPackageJson (x @ ''.package.json'')"
proof -
  have "x @ ''.package.json'' = x @ CHR ''.'' # (''package'' @ CHR ''.'' # ''json'')" by simp
  then have "js_split CHR ''.'' (x @ ''.package.json'') =
             js_split CHR ''.'' x @ js_split CHR ''.'' ''package'' @ js_split CHR ''.'' ''json''"
    by (simp only: js_split_append_sep)
  then have sp: "js_split CHR ''.'' (x @ ''.package.json'') =
                 js_split CHR ''.'' x @ [''package'', ''json'']"
    by simp
  have bn: "basename ''package'' = ''package''" by (simp add: basename_def)
  show ?thesis
    unfolding isPackageJson_def sp Let_def nth_last_two using bn by simp
qed

lemma isPackageJson_iff:
  assumes "\<not> suffix ''/.json'' f"
  shows "isPackageJson f =
         (f = ''package.json'' \<or> suffix ''/package.json'' f \<or> suffix ''.package.json'' f)"
proof
  assume "isPackageJson f"
  with assms isPackageJson_only [of f]
  show "f = ''package.json'' \<or> suffix ''/package.json'' f \<or> suffix ''.package.json'' f"
    by blast
next
  assume a: "f = ''package.json'' \<or> suffix ''/package.json'' f \<or> suffix ''.package.json'' f"
  then consider "f = ''package.json''" | "suffix ''/package.json'' f"
    | "suffix ''.package.json'' f"
    by blast
  then show "isPackageJson f"
  proof cases
    case 1
    then show ?thesis using isPackageJson_exact [of "[]"] by simp
  next
    case 2
    then obtain x where "f = (x @ ''/'') @ ''package.json''" by (auto simp: suffix_def)
    then show ?thesis using isPackageJson_exact [of "x @ ''/''"] by simp
  next
    case 3
    then obtain x where "f = x @ ''.package.json''" by (auto simp: suffix_def)
    then show ?thesis by (simp only: isPackageJson_dotted)
  qed
qed

lemma indexOf_from_found:
  "(indexOf_from pat s i \<noteq> - 1) = (\<exists>xs ys. s = xs @ pat @ ys)"
proof (induction s arbitrary: i)
  case Nil
  show ?case by auto
next
  case (Cons c cs)
  show ?case
  proof (cases "prefix pat (c # cs)")
    case True
    then obtain ys where "c # cs = pat @ ys" by (auto simp: prefix_def)
    then have "c # cs = [] @ pat @ ys" by simp
    then have "\<exists>xs ys. c # cs = xs @ pat @ ys" by blast
    with True show ?thesis by simp
  next
    case False
    have "(\<exists>xs ys. c # cs = xs @ pat @ ys) = (\<exists>xs ys. cs = xs @ pat @ ys)"
    proof
      assume "\<exists>xs ys. c # cs = xs @ pat @ ys"
      then obtain xs ys where e: "c # cs = xs @ pat @ ys" by blast
      show "\<exists>xs ys. cs = xs @ pat @ ys"
      proof (cases xs)
        case Nil
        with e False show ?thesis by (auto simp: prefix_def)
      next
        case (Cons x xs')
        with e have "cs = xs' @ pat @ ys" by simp
        then show ?thesis by blast
      qed
    next
      assume "\<exists>xs ys. cs = xs @ pat @ ys"
      then obtain xs ys where "cs = xs @ pat @ ys" by blast
      then have "c # cs = (c # xs) @ pat @ ys" by simp
      then show "\<exists>xs ys. c # cs = xs @ pat @ ys" by blast
    qed
    with False Cons.IH show ?thesis by simp
  qed
qed

lemma inNodeModules_iff:
  "inNodeModules f = (\<exists>xs ys. f = xs @ ''/node_modules/'' @ ys)"
  unfolding inNodeModules_def indexOf_def by (rule indexOf_from_found)

section \<open>Manifest changes\<close>

text \<open>
  C5, as the source has it. Let the update handler be called in a state where the bundler
  is a watchified instance. It takes the manifest path (the instance is closed and dropped
  and \<^verbatim>\<open>npm prune\<close> is started, with no request yet) exactly when some path of the batch
  does not contain \<^verbatim>\<open>/node_modules/\<close> and some path of the batch, whether it contains
  \<^verbatim>\<open>/node_modules/\<close> or not, passes the handler's test for a manifest; otherwise the
  instance and the child processes are as before. The test accepts every path whose last
  component is \<^verbatim>\<open>package.json\<close>. It rejects every path that is not
  \<^verbatim>\<open>package.json\<close> itself and ends in none of \<^verbatim>\<open>/package.json\<close>,
  \<^verbatim>\<open>.package.json\<close> and \<^verbatim>\<open>/.json\<close>: every path, that is, whose last component
  neither is \<^verbatim>\<open>package.json\<close>, nor ends in \<^verbatim>\<open>.package.json\<close>, nor is
  \<^verbatim>\<open>.json\<close>.
\<close>

theorem manifest_detection:
  assumes live: "bundlerInstance s = Some b" "watchified b"
  shows
    "(\<exists>t. step opts (Update files) s = Some t \<and>
        (if (\<exists>f\<in>set files. \<not> inNodeModules f) \<and> (\<exists>f\<in>set files. isPackageJson f)
         then bundlerInstance t = None \<and> closedSessions t = closedSessions s @ [sid b] \<and>
              execs t = execs s @ [NpmPrune] \<and> requested t = requested s
         else bundlerInstance t = Some b \<and> closedSessions t = closedSessions s \<and>
              execs t = execs s)) \<and>
     (\<forall>d. d = [] \<or> last d = CHR ''/'' \<longrightarrow> isPackageJson (d @ ''package.json'')) \<and>
     (\<forall>f. f \<noteq> ''package.json'' \<and> \<not> suffix ''/package.json'' f \<and>
          \<not> suffix ''.package.json'' f \<and> \<not> suffix ''/.json'' f \<longrightarrow>
          \<not> isPackageJson f)"
proof (intro conjI allI impI)
  have pj: "(packageJsonChanges files \<noteq> []) = (\<exists>f\<in>set files. isPackageJson f)"
    by (auto simp: packageJsonChanges_def filter_empty_conv)
  show "\<exists>t. step opts (Update files) s = Some t \<and>
        (if (\<exists>f\<in>set files. \<not> inNodeModules f) \<and> (\<exists>f\<in>set files. isPackageJson f)
         then bundlerInstance t = None \<and> closedSessions t = closedSessions s @ [sid b] \<and>
              execs t = execs s @ [NpmPrune] \<and> requested t = requested s
         else bundlerInstance t = Some b \<and> closedSessions t = closedSessions s \<and>
              execs t = execs s)"
  proof (cases "\<exists>f\<in>set files. \<not> inNodeModules f")
    case False
    then have "step opts (Update files) s = Some s" using live by (simp add: update_noise)
    with False live show ?thesis by simp
  next
    case out: True
    show ?thesis
    proof (cases "\<exists>f\<in>set files. isPackageJson f")
      case True
      with out pj live show ?thesis by (simp add: update_manifest)
    next
      case False
      with pj have "packageJsonChanges files = []" by simp
      with out False live show ?thesis by (simp add: update_script)
    qed
  qed
next
  fix d :: string
  assume "d = [] \<or> last d = CHR ''/''"
  then show "isPackageJson (d @ ''package.json'')" by (rule isPackageJson_exact)
next
  fix f
  assume "f \<noteq> ''package.json'' \<and> \<not> suffix ''/package.json'' f \<and>
          \<not> suffix ''.package.json'' f \<and> \<not> suffix ''/.json'' f"
  then show "\<not> isPackageJson f" using isPackageJson_only [of f] by blast
qed

theorem manifest_detection_witness:
  "\<exists>s t.
     run (defaultOptions ''/srv'') [WatchTask] init = Some s \<and>
     step (defaultOptions ''/srv'') (Update [''/srv/app/main.jsx'', ''/srv/package.json'']) s = Some t \<and>
     bundlerInstance t = None \<and> closedSessions t = [0] \<and> execs t = [NpmPrune] \<and>
     isPackageJson (''/srv/'' @ ''package.json'') \<and>
     \<not> isPackageJson ''/srv/app/data.json'' \<and>
     \<not> isPackageJson ''/srv/mypackage.json''"
proof -
  let ?o = "defaultOptions ''/srv''"
  let ?files = "[''/srv/app/main.jsx'', ''/srv/package.json'']"
  obtain s where r: "run ?o [WatchTask] init = Some s" by simp
  from watch_started [OF r] obtain b where live: "bundlerInstance s = Some b" "watchified b"
    and b0: "sid b = 0" and s0: "execs s = []" "closedSessions s = []"
    by blast
  note m = manifest_detection [OF live, of ?o ?files]
  have c: "(\<exists>f\<in>set ?files. \<not> inNodeModules f) \<and> (\<exists>f\<in>set ?files. isPackageJson f)"
    by (simp add: inNodeModules_def indexOf_def isPackageJson_def basename_def)
  from m obtain t where st: "step ?o (Update ?files) s = Some t"
    and i: "if (\<exists>f\<in>set ?files. \<not> inNodeModules f) \<and> (\<exists>f\<in>set ?files. isPackageJson f)
         then bundlerInstance t = None \<and> closedSessions t = closedSessions s @ [sid b] \<and>
              execs t = execs s @ [NpmPrune] \<and> requested t = requested s
         else bundlerInstance t = Some b \<and> closedSessions t = closedSessions s \<and>
              execs t = execs s"
    by blast
  from i c b0 s0 have t: "bundlerInstance t = None" "closedSessions t = [0]" "execs t = [NpmPrune]"
    by simp_all
  from m have "last ''/srv/'' = CHR ''/'' \<longrightarrow> isPackageJson (''/srv/'' @ ''package.json'')"
    by blast
  then have p1: "isPackageJson (''/srv/'' @ ''package.json'')" by simp
  from m have rej: "f \<noteq> ''package.json'' \<and> \<not> suffix ''/package.json'' f \<and>
      \<not> suffix ''.package.json'' f \<and> \<not> suffix ''/.json'' f \<longrightarrow> \<not> isPackageJson f" for f
    by blast
  from rej [of "''/srv/app/data.json''"]
  have p2: "\<not> isPackageJson ''/srv/app/data.json''" by (simp add: suffix_def)
  from rej [of "''/srv/mypackage.json''"]
  have p3: "\<not> isPackageJson ''/srv/mypackage.json''" by (simp add: suffix_def)
  from r st t p1 p2 p3 show ?thesis by blast
qed

text \<open>
  C5 as stated fails for a manifest inside the installation directory that comes in one
  batch with a change outside it: the only path outside \<^verbatim>\<open>node_modules\<close> is a script, and
  the manifest path is taken all the same.
\<close>

theorem manifest_inside_node_modules_counterexample:
  "filter (\<lambda>f. \<not> inNodeModules f)
     [''/srv/app/main.jsx'', ''/srv/node_modules/left-pad/package.json''] = [''/srv/app/main.jsx''] \<and>
   \<not> isPackageJson ''/srv/app/main.jsx'' \<and>
   map_option (\<lambda>t. (bundlerInstance t, execs t))
     (run (defaultOptions ''/srv'')
        [WatchTask, Update [''/srv/app/main.jsx'', ''/srv/node_modules/left-pad/package.json'']]
        init) = Some (None, [NpmPrune])"
  by (simp add: inNodeModules_def indexOf_def isPackageJson_def basename_def
        watch_task_def bundler_def init_def gulp_start_def Let_def update_handler_def
        nodeModuleChanges_def packageJsonChanges_def exec_def gutil_log_def defaultOptions_def)

section \<open>Sessions\<close>

lemma bundler_session:
  "bundlerInstance (snd (bundler opts s)) = Some (fst (bundler opts s)) \<and>
   (case bundlerInstance s of
      Some b \<Rightarrow> fst (bundler opts s) = b \<and> created (snd (bundler opts s)) = created s
    | None \<Rightarrow> sid (fst (bundler opts s)) = created s \<and>
              watchified (fst (bundler opts s)) = watchJs s \<and>
              created (snd (bundler opts s)) = Suc (created s))"
  by (simp add: bundler_def Let_def split: option.splits)

lemma js_task_session:
  "bundlerInstance (js_task opts s) = Some (fst (bundler opts s')) \<and>
   bundles (js_task opts s) = bundles s @ [sid (fst (bundler opts s'))] \<and>
   created (js_task opts s) = created (snd (bundler opts s'))"
  if "s' = gutil_log opts [(Plain, Str ''Bundling javascript: ''), (Magenta, Str (js opts))] s"
  using bundler_session [of opts s'] that by (simp add: js_task_eq)

lemma bundler_log_irrelevant:
  "sid (fst (bundler opts (gutil_log opts l s))) = sid (fst (bundler opts s)) \<and>
   watchified (fst (bundler opts (gutil_log opts l s))) = watchified (fst (bundler opts s)) \<and>
   created (snd (bundler opts (gutil_log opts l s))) = created (snd (bundler opts s))"
  by (simp add: bundler_def Let_def split: option.splits)

lemma session_inv_frame:
  "bundlerInstance t = bundlerInstance s \<Longrightarrow> created t = created s \<Longrightarrow>
   closedSessions t = closedSessions s \<Longrightarrow> session_inv s \<Longrightarrow> session_inv t"
  by (simp add: session_inv_def)

lemma fresh_from_frame:
  "bundlerInstance t = bundlerInstance s \<Longrightarrow> created t = created s \<Longrightarrow>
   bundles t = bundles s \<Longrightarrow> fresh_from c pre s \<Longrightarrow> fresh_from c pre t"
  by (simp add: fresh_from_def)

lemma session_inv_bundler: "session_inv s \<Longrightarrow> session_inv (snd (bundler opts s))"
  using bundler_session [of opts s]
  by (cases "bundlerInstance s") (auto simp: session_inv_def less_Suc_eq)

lemma watch_callback_session [simp]:
  "bundlerInstance (watch_callback opts w s) = bundlerInstance s"
  "created (watch_callback opts w s) = created s"
  "closedSessions (watch_callback opts w s) = closedSessions s"
  "bundles (watch_callback opts w s) = bundles s"
  "watchJs (watch_callback opts w s) = watchJs s"
  by (cases w; simp)+

lemma exec_callback_session [simp]:
  "bundlerInstance (exec_callback opts c err out s) = bundlerInstance s"
  "created (exec_callback opts c err out s) = created s"
  "closedSessions (exec_callback opts c err out s) = closedSessions s"
  "bundles (exec_callback opts c err out s) = bundles s"
  "watchJs (exec_callback opts c err out s) = watchJs s"
  by (cases c; cases err; simp add: prune_callback_def install_callback_def)+

lemma run_callback_session [simp]:
  "bundlerInstance (run_callback opts cb oc s) = bundlerInstance s"
  "created (run_callback opts cb oc s) = created s"
  "closedSessions (run_callback opts cb oc s) = closedSessions s"
  "bundles (run_callback opts cb oc s) = bundles s"
  "watchJs (run_callback opts cb oc s) = watchJs s"
  by (cases cb; simp add: requeue_callback_def start_watching_def Let_def)+

lemma update_handler_session:
  assumes "update_handler opts files s = Inr t"
  shows "created t = created s \<and> bundles t = bundles s \<and> watchJs t = watchJs s \<and>
         ((bundlerInstance t = bundlerInstance s \<and> closedSessions t = closedSessions s) \<or>
          (\<exists>b. bundlerInstance s = Some b \<and> bundlerInstance t = None \<and>
               closedSessions t = closedSessions s @ [sid b]))"
  using assms by (auto simp: update_handler_def split: if_splits option.splits)

lemma session_inv_step:
  assumes inv: "session_inv s" and st: "step opts e s = Some t"
  shows "session_inv t"
proof (cases e)
  case (Tick d)
  with st inv show ?thesis by (auto simp: session_inv_def)
next
  case WatchTask
  have "session_inv (s\<lparr>handleExceptions := True, watchJs := True\<rparr>)"
    using inv by (simp add: session_inv_def)
  then have "session_inv (snd (bundler opts (s\<lparr>handleExceptions := True, watchJs := True\<rparr>)))"
    by (rule session_inv_bundler)
  with st WatchTask show ?thesis
    by (auto simp: watch_task_def gulp_start_def session_inv_def)
next
  case JsTask
  let ?s' = "gutil_log opts [(Plain, Str ''Bundling javascript: ''), (Magenta, Str (js opts))] s"
  have "session_inv ?s'" using inv by (simp add: session_inv_def)
  then have "session_inv (snd (bundler opts ?s'))" by (rule session_inv_bundler)
  moreover have "t = js_task opts s" using st JsTask by simp
  ultimately show ?thesis
    using js_task_session [of ?s' opts s] bundler_session [of opts ?s']
    by (simp add: session_inv_def)
next
  case (Request n)
  with st inv show ?thesis by (auto simp: session_inv_def)
next
  case (Changed w)
  with st inv show ?thesis by (auto simp: session_inv_def split: if_splits)
next
  case (Update fs)
  with st obtain b where "bundlerInstance s = Some b" and up: "update_handler opts fs s = Inr t"
    by (auto split: option.splits if_splits sum.splits)
  from update_handler_session [OF up] inv show ?thesis
    by (auto simp: session_inv_def less_Suc_eq)
next
  case (ExecDone c err out)
  with st inv show ?thesis by (auto simp: session_inv_def split: if_splits)
next
  case (Finish n cb oc)
  with st inv show ?thesis by (auto simp: session_inv_def split: if_splits)
qed

lemma session_inv_run:
  "session_inv s \<Longrightarrow> run opts es s = Some t \<Longrightarrow> session_inv t"
  by (induction es arbitrary: s) (auto split: option.splits dest: session_inv_step)

lemma session_inv_init: "session_inv init"
  by (simp add: session_inv_def init_def)

lemma fresh_from_bundler:
  "fresh_from c pre s \<Longrightarrow> fresh_from c pre (snd (bundler opts s)) \<and> c \<le> sid (fst (bundler opts s))"
  using bundler_session [of opts s]
  by (cases "bundlerInstance s") (auto simp: fresh_from_def)

lemma fresh_from_step:
  assumes inv: "fresh_from c pre s" and st: "step opts e s = Some t"
  shows "fresh_from c pre t"
proof (cases e)
  case (Tick d)
  with st inv show ?thesis by (auto simp: fresh_from_def)
next
  case WatchTask
  have "fresh_from c pre (s\<lparr>handleExceptions := True, watchJs := True\<rparr>)"
    using inv by (simp add: fresh_from_def)
  then have "fresh_from c pre (snd (bundler opts (s\<lparr>handleExceptions := True, watchJs := True\<rparr>)))"
    using fresh_from_bundler by blast
  with st WatchTask show ?thesis
    by (auto simp: watch_task_def gulp_start_def fresh_from_def)
next
  case JsTask
  let ?s' = "gutil_log opts [(Plain, Str ''Bundling javascript: ''), (Magenta, Str (js opts))] s"
  have "fresh_from c pre ?s'" using inv by (simp add: fresh_from_def)
  then have "fresh_from c pre (snd (bundler opts ?s'))" "c \<le> sid (fst (bundler opts ?s'))"
    using fresh_from_bundler by blast+
  moreover have "t = js_task opts s" using st JsTask by simp
  ultimately show ?thesis
    using js_task_session [of ?s' opts s] bundler_session [of opts ?s']
    by (auto simp: fresh_from_def)
next
  case (Request n)
  with st inv show ?thesis by (auto simp: fresh_from_def)
next
  case (Changed w)
  with st inv show ?thesis by (auto simp: fresh_from_def split: if_splits)
next
  case (Update fs)
  with st obtain b where "bundlerInstance s = Some b" and up: "update_handler opts fs s = Inr t"
    by (auto split: option.splits if_splits sum.splits)
  from update_handler_session [OF up] inv show ?thesis
    by (auto simp: fresh_from_def)
next
  case (ExecDone c err out)
  with st inv show ?thesis by (auto simp: fresh_from_def split: if_splits)
next
  case (Finish n cb oc)
  with st inv show ?thesis by (auto simp: fresh_from_def split: if_splits)
qed

lemma fresh_from_run:
  "fresh_from c pre s \<Longrightarrow> run opts es s = Some t \<Longrightarrow> fresh_from c pre t"
  by (induction es arbitrary: s) (auto split: option.splits dest: fresh_from_step)

section \<open>A manifest change and the session\<close>

text \<open>
  C6, as the source has it. In a reachable state where the bundler is a watchified
  instance \<open>old\<close>, let the update handler see a manifest change. The handler closes
  \<open>old\<close> and empties \<^verbatim>\<open>bundlerInstance\<close> at once, before \<^verbatim>\<open>npm prune\<close> runs and before
  any rebuild is requested; it constructs no instance. The js task that runs next
  constructs the replacement, whose identity is new. Whatever events follow, the
  instance in \<^verbatim>\<open>bundlerInstance\<close> is never \<open>old\<close> again, it is not a closed one, and every
  later \<^verbatim>\<open>bundle()\<close> is called on an instance constructed after the change.
\<close>

theorem manifest_change_retires_session:
  assumes reach: "run opts es0 init = Some s"
    and live: "bundlerInstance s = Some old" "watchified old"
    and manifest: "\<exists>f\<in>set files. \<not> inNodeModules f" "\<exists>f\<in>set files. isPackageJson f"
  shows "\<exists>s1. step opts (Update files) s = Some s1 \<and>
           bundlerInstance s1 = None \<and> created s1 = created s \<and>
           closedSessions s1 = closedSessions s @ [sid old] \<and>
           requested s1 = requested s \<and> bundles s1 = bundles s \<and>
           (\<exists>s2 b. step opts JsTask s1 = Some s2 \<and> bundlerInstance s2 = Some b \<and>
                sid b = created s \<and> sid old < sid b \<and> bundles s2 = bundles s @ [sid b]) \<and>
           (\<forall>es s2. run opts es s1 = Some s2 \<longrightarrow>
              (\<forall>b. bundlerInstance s2 = Some b \<longrightarrow>
                   sid old < sid b \<and> sid b \<notin> set (closedSessions s2)) \<and>
              (\<exists>new. bundles s2 = bundles s @ new \<and> (\<forall>i\<in>set new. sid old < i)))"
proof -
  from reach have inv: "session_inv s" using session_inv_init by (rule session_inv_run [rotated])
  with live have old: "sid old < created s" by (simp add: session_inv_def)
  have pj: "packageJsonChanges files \<noteq> []"
    using manifest(2) by (auto simp: packageJsonChanges_def filter_empty_conv)
  let ?s1 = "exec NpmPrune
               (gutil_log opts [(Yellow, Str ''package.json change detected, running npm prune'')]
                  (s\<lparr>closedSessions := closedSessions s @ [sid old], bundlerInstance := None\<rparr>))"
  have st: "step opts (Update files) s = Some ?s1"
    using live manifest(1) pj by (simp add: update_manifest)
  have inv1: "session_inv ?s1" using inv st by (rule session_inv_step)
  have fr1: "fresh_from (created s) (bundles s) ?s1" by (simp add: fresh_from_def)
  let ?l = "gutil_log opts [(Plain, Str ''Bundling javascript: ''), (Magenta, Str (js opts))] ?s1"
  have none: "bundlerInstance ?l = None" and cr: "created ?l = created s" by simp_all
  have js: "step opts JsTask ?s1 = Some (js_task opts ?s1)" by simp
  have "bundlerInstance (js_task opts ?s1) = Some (fst (bundler opts ?l)) \<and>
        sid (fst (bundler opts ?l)) = created s \<and>
        bundles (js_task opts ?s1) = bundles s @ [sid (fst (bundler opts ?l))]"
    using js_task_session [of ?l opts ?s1] bundler_session [of opts ?l] none cr by simp
  with js old have next_js: "\<exists>s2 b. step opts JsTask ?s1 = Some s2 \<and> bundlerInstance s2 = Some b \<and>
                sid b = created s \<and> sid old < sid b \<and> bundles s2 = bundles s @ [sid b]"
    by auto
  have later: "(\<forall>b. bundlerInstance s2 = Some b \<longrightarrow>
                   sid old < sid b \<and> sid b \<notin> set (closedSessions s2)) \<and>
              (\<exists>new. bundles s2 = bundles s @ new \<and> (\<forall>i\<in>set new. sid old < i))"
    if r: "run opts es ?s1 = Some s2" for es s2
  proof -
    from inv1 r have "session_inv s2" by (rule session_inv_run)
    moreover from fr1 r have "fresh_from (created s) (bundles s) s2" by (rule fresh_from_run)
    ultimately show ?thesis using old
      by (fastforce simp: session_inv_def fresh_from_def)
  qed
  from st next_js later show ?thesis by simp
qed

theorem manifest_change_retires_session_witness:
  "\<exists>s s1 s2 old new.
     run (defaultOptions ''/srv'') [WatchTask] init = Some s \<and>
     bundlerInstance s = Some old \<and>
     step (defaultOptions ''/srv'') (Update [''/srv/package.json'']) s = Some s1 \<and>
     bundlerInstance s1 = None \<and> closedSessions s1 = [sid old] \<and>
     run (defaultOptions ''/srv'')
       [ExecDone NpmPrune None [], ExecDone NpmInstall None [], JsTask] s1 = Some s2 \<and>
     bundlerInstance s2 = Some new \<and> sid old < sid new \<and>
     requested s2 = [''html-js'']"
proof -
  let ?o = "defaultOptions ''/srv''"
  let ?files = "[''/srv/package.json'']"
  let ?es = "[ExecDone NpmPrune None [], ExecDone NpmInstall None [], JsTask]"
  obtain s where r: "run ?o [WatchTask] init = Some s" by simp
  from watch_started [OF r] obtain old where live: "bundlerInstance s = Some old" "watchified old"
    and s0: "closedSessions s = []" "requested s = []" "execs s = []"
    by blast
  have m: "\<exists>f\<in>set ?files. \<not> inNodeModules f" "\<exists>f\<in>set ?files. isPackageJson f"
    by (simp_all add: inNodeModules_def indexOf_def isPackageJson_def basename_def)
  from manifest_change_retires_session [OF r live m]
  obtain s1 where st: "step ?o (Update ?files) s = Some s1"
    and s1: "bundlerInstance s1 = None" "closedSessions s1 = closedSessions s @ [sid old]"
      "requested s1 = requested s"
    and later: "\<forall>es s2. run ?o es s1 = Some s2 \<longrightarrow>
              (\<forall>b. bundlerInstance s2 = Some b \<longrightarrow>
                   sid old < sid b \<and> sid b \<notin> set (closedSessions s2)) \<and>
              (\<exists>new. bundles s2 = bundles s @ new \<and> (\<forall>i\<in>set new. sid old < i))"
    by blast
  have pj: "packageJsonChanges ?files \<noteq> []"
    using m(2) by (auto simp: packageJsonChanges_def filter_empty_conv)
  have ex: "execs s1 = [NpmPrune]"
    using st live s0 update_manifest [OF m(1) pj live(1), of ?o] by auto
  obtain s2 where r2: "run ?o ?es s1 = Some s2"
    using ex by (simp add: prune_callback_def)
  have rq: "requested s2 = [''html-js'']"
    using r2 ex s1 s0 by (auto simp: prune_callback_def install_callback_def)
  obtain new where n: "bundlerInstance s2 = Some new"
    using r2 ex js_task_session [OF refl] by (auto simp: prune_callback_def)
  from later r2 n have "sid old < sid new" by blast
  with r live st s1 s0 r2 n rq show ?thesis by auto
qed

text \<open>
  C6 as stated fails where it has the session replaced before the rebuild request is
  issued. A script change starts a run of \<^verbatim>\<open>html-js\<close>, which bundles on instance 0; a
  manifest change follows, and prune and install succeed. When the rebuild has been
  requested (it is the second request, coalesced into the flag of the run in flight), one
  instance was constructed in all, the closed one, and \<^verbatim>\<open>bundlerInstance\<close> is empty.
\<close>

theorem rebuild_requested_before_replacement_counterexample:
  "map_option (\<lambda>t. (requested t, runningTasks t ''html-js'', bundlerInstance t, created t,
                      closedSessions t, bundles t))
     (run (defaultOptions ''/srv'')
        [WatchTask, Update [''/srv/app/main.jsx''], JsTask, Update [''/srv/package.json''],
         ExecDone NpmPrune None [], ExecDone NpmInstall None []] init) =
   Some ([''html-js'', ''html-js''], Some True, None, 1, [0], [0])"
  by (simp add: inNodeModules_def indexOf_def isPackageJson_def basename_def
        watch_task_def bundler_def init_def gulp_start_def Let_def update_handler_def
        nodeModuleChanges_def packageJsonChanges_def exec_def gutil_log_def defaultOptions_def
        rebundleJs_def runOrQueue_def js_task_def prune_callback_def install_callback_def
        inherited_def object_prototype_def)

section \<open>One-shot mode\<close>

lemma first_instance:
  "sid (fst (bundler opts init)) = 0 \<and> \<not> watchified (fst (bundler opts init))"
  by (simp add: bundler_def init_def Let_def)

lemma bundler_init_irrelevant:
  assumes "bundlerInstance s = None" "created s = 0" "\<not> watchJs s"
  shows "fst (bundler opts s) = fst (bundler opts init)"
  using assms by (simp add: bundler_def init_def Let_def)

lemma one_shot_step:
  assumes inv: "one_shot opts s" and st: "step opts e s = Some t" and nw: "e \<noteq> WatchTask"
  shows "one_shot opts t"
proof (cases e)
  case (Tick d)
  with st inv show ?thesis by (auto simp: one_shot_def split: option.splits)
next
  case WatchTask
  with nw show ?thesis by simp
next
  case JsTask
  let ?l = "gutil_log opts [(Plain, Str ''Bundling javascript: ''), (Magenta, Str (js opts))] s"
  have t: "t = js_task opts s" using st JsTask by simp
  note j = js_task_session [of ?l opts s, OF refl] and b = bundler_session [of opts ?l]
  show ?thesis
  proof (cases "bundlerInstance s")
    case None
    with inv have "bundlerInstance ?l = None" "created ?l = 0" "\<not> watchJs ?l"
      by (simp_all add: one_shot_def)
    from bundler_init_irrelevant [OF this, of opts] j b None inv first_instance [of opts]
    show ?thesis unfolding t by (simp add: one_shot_def)
  next
    case (Some b0)
    with j b inv first_instance [of opts] show ?thesis
      unfolding t by (simp add: one_shot_def)
  qed
next
  case (Request n)
  with st inv show ?thesis by (auto simp: one_shot_def split: option.splits)
next
  case (Changed w)
  with st inv show ?thesis by (auto simp: one_shot_def split: if_splits option.splits)
next
  case (Update fs)
  with st obtain b where "bundlerInstance s = Some b" "watchified b"
    by (auto split: option.splits if_splits)
  with inv first_instance [of opts] show ?thesis by (simp add: one_shot_def)
next
  case (ExecDone c err out)
  with st inv show ?thesis by (auto simp: one_shot_def split: if_splits option.splits)
next
  case (Finish n cb oc)
  with st inv show ?thesis by (auto simp: one_shot_def split: if_splits option.splits)
qed

lemma one_shot_run:
  "one_shot opts s \<Longrightarrow> run opts es s = Some t \<Longrightarrow> WatchTask \<notin> set es \<Longrightarrow> one_shot opts t"
proof (induction es arbitrary: s)
  case Nil
  then show ?case by simp
next
  case (Cons e es)
  from Cons.prems(2) obtain u where u: "step opts e s = Some u" "run opts es u = Some t"
    by (auto split: option.splits)
  from Cons.prems(3) have "e \<noteq> WatchTask" "WatchTask \<notin> set es" by auto
  with Cons.IH [of u] one_shot_step [OF Cons.prems(1) u(1)] u(2) show ?case by blast
qed

text \<open>
  C9, as the source has it. In a process in which the watch task does not run, at most one
  browserify instance is ever constructed: the one that the first \<^verbatim>\<open>bundler()\<close> call
  makes, with the options of the caller, its own empty \<^verbatim>\<open>cache\<close> and \<^verbatim>\<open>packageCache\<close>, and
  no watchify around it. It stays in \<^verbatim>\<open>bundlerInstance\<close>, is never closed, and every
  \<^verbatim>\<open>bundle()\<close> of the process is called on it.
\<close>

theorem one_shot_single_instance:
  assumes "run opts es init = Some s" and "WatchTask \<notin> set es"
  shows "\<not> watchJs s \<and> created s \<le> 1 \<and> closedSessions s = [] \<and>
         (\<forall>i\<in>set (bundles s). i = 0) \<and>
         (\<forall>b. bundlerInstance s = Some b \<longrightarrow>
              b = fst (bundler opts init) \<and> sid b = 0 \<and> \<not> watchified b) \<and>
         (bundles s \<noteq> [] \<longrightarrow> bundlerInstance s \<noteq> None)"
proof -
  have "one_shot opts init" by (simp add: one_shot_def init_def)
  from one_shot_run [OF this assms] first_instance [of opts] show ?thesis
    by (auto simp: one_shot_def split: option.splits)
qed

theorem one_shot_single_instance_witness:
  "\<exists>s b. run (defaultOptions ''/srv'') [JsTask, Tick 10, JsTask] init = Some s \<and>
     bundles s = [0, 0] \<and> created s = 1 \<and> bundlerInstance s = Some b \<and>
     sid b = 0 \<and> \<not> watchified b"
proof -
  let ?o = "defaultOptions ''/srv''"
  obtain s where r: "run ?o [JsTask, Tick 10, JsTask] init = Some s" by simp
  have nw: "WatchTask \<notin> set [JsTask, Tick 10, JsTask]" by simp
  have e: "bundles s = [0, 0]" "created s = 1"
    using r by (auto simp: js_task_def bundler_def init_def Let_def gutil_log_def)
  obtain b where b: "bundlerInstance s = Some b"
    using r js_task_session [OF refl] by auto
  from one_shot_single_instance [OF r nw] b have "sid b = 0 \<and> \<not> watchified b" by blast
  with r e b show ?thesis by blast
qed

text \<open>
  C9 as stated fails: two runs of the js task in a process without the watch task call
  \<^verbatim>\<open>bundle()\<close> on the same instance, the only one constructed, which is still in
  \<^verbatim>\<open>bundlerInstance\<close> afterwards.
\<close>

theorem one_shot_session_persists_counterexample:
  "map_option bundles (run (defaultOptions ''/srv'') [JsTask, JsTask] init) = Some [0, 0] \<and>
   map_option created (run (defaultOptions ''/srv'') [JsTask, JsTask] init) = Some 1 \<and>
   map_option (map_option sid \<circ> bundlerInstance)
     (run (defaultOptions ''/srv'') [JsTask, JsTask] init) = Some (Some 0)"
  by (simp add: js_task_def bundler_def init_def Let_def gutil_log_def defaultOptions_def)

section \<open>File changes and the tasks they request\<close>

lemma watch_callback_requested:
  "requested (watch_callback opts w s) = requested s @ [task_of w] \<and>
   watchers (watch_callback opts w s) = watchers s"
  by (cases w) simp_all

lemma run_changed:
  "set ws \<subseteq> set (watchers s) \<Longrightarrow>
   \<exists>t. run opts (map Changed ws) s = Some t \<and>
       requested t = requested s @ map task_of ws \<and>
       watchers t = watchers s \<and> bundlerInstance t = bundlerInstance s"
proof (induction ws arbitrary: s)
  case Nil
  show ?case by simp
next
  case (Cons w ws)
  let ?u = "watch_callback opts w s"
  from Cons.prems have "set ws \<subseteq> set (watchers ?u)"
    by (simp add: watch_callback_requested)
  from Cons.IH [OF this] obtain t where t: "run opts (map Changed ws) ?u = Some t"
    "requested t = requested ?u @ map task_of ws" "watchers t = watchers ?u"
    "bundlerInstance t = bundlerInstance ?u"
    by blast
  with Cons.prems show ?case by (simp add: watch_callback_requested)
qed

lemma update_one:
  assumes "bundlerInstance s = Some b" "watchified b"
  shows "\<exists>t. step opts (Update [p]) s = Some t \<and>
           requested t = requested s @
             (if \<not> inNodeModules p \<and> \<not> isPackageJson p then [''html-js''] else [])"
proof (cases "inNodeModules p")
  case True
  then have "step opts (Update [p]) s = Some s" using assms by (simp add: update_noise)
  with True show ?thesis by simp
next
  case out: False
  show ?thesis
  proof (cases "isPackageJson p")
    case True
    then have "packageJsonChanges [p] \<noteq> []" by (simp add: packageJsonChanges_def)
    with out assms True show ?thesis by (simp add: update_manifest)
  next
    case False
    then have "packageJsonChanges [p] = []" by (simp add: packageJsonChanges_def)
    with out assms False show ?thesis by (simp add: update_script)
  qed
qed

text \<open>
  C8, as the source has it. One change of a file reaches every registered watcher whose
  glob it matches, and the update handler as well when the file is a module of the bundle:
  the events it gives rise to can all happen, and they request the task of each matching
  watcher, in the order of registration, and then \<^verbatim>\<open>html-js\<close> when the file is a bundled
  one outside \<^verbatim>\<open>node_modules\<close> that is not a manifest. No request is withheld because
  another pattern matched too.
\<close>

theorem change_requests_every_matching_task:
  "\<exists>t. run opts (notifications matches bundled p s) s = Some t \<and>
       requested t =
         requested s @ map task_of (filter (\<lambda>w. matches w p) (watchers s)) @
         (if bundled p \<and> (case bundlerInstance s of None \<Rightarrow> False | Some b \<Rightarrow> watchified b) \<and>
             \<not> inNodeModules p \<and> \<not> isPackageJson p
          then [''html-js''] else [])"
proof -
  let ?ws = "filter (\<lambda>w. matches w p) (watchers s)"
  have "set ?ws \<subseteq> set (watchers s)" by auto
  from run_changed [OF this, of opts] obtain u where u: "run opts (map Changed ?ws) s = Some u"
    "requested u = requested s @ map task_of ?ws" "bundlerInstance u = bundlerInstance s"
    by blast
  show ?thesis
  proof (cases "bundled p \<and> (case bundlerInstance s of None \<Rightarrow> False | Some b \<Rightarrow> watchified b)")
    case False
    then have "notifications matches bundled p s = map Changed ?ws"
      by (simp add: notifications_def)
    with u False show ?thesis by auto
  next
    case True
    then obtain b where b: "bundlerInstance u = Some b" "watchified b"
      using u(3) by (auto split: option.splits)
    from update_one [OF b, of opts p] obtain t where t: "step opts (Update [p]) u = Some t"
      "requested t = requested u @
             (if \<not> inNodeModules p \<and> \<not> isPackageJson p then [''html-js''] else [])"
      by blast
    from True have "notifications matches bundled p s = map Changed ?ws @ [Update [p]]"
      by (simp add: notifications_def)
    with u t True show ?thesis by (simp add: run_append)
  qed
qed

lemma watching_started:
  "run opts [WatchTask, Finish ''build'' StartWatching oc] init = Some s \<Longrightarrow>
   (\<exists>b. bundlerInstance s = Some b \<and> watchified b \<and> sid b = 0) \<and>
   requested s = [] \<and> watchers s = [AllLess, Assets, Html]"
  by (auto simp: watch_task_def bundler_def init_def gulp_start_def Let_def start_watching_def)

theorem change_requests_every_matching_task_witness:
  "\<exists>s t.
     run (defaultOptions ''/srv'') [WatchTask, Finish ''build'' StartWatching Succeeded] init = Some s \<and>
     run (defaultOptions ''/srv'')
       (notifications (\<lambda>w p. w \<noteq> Html) (\<lambda>p. False) ''app/assets/theme.less'' s) s = Some t \<and>
     requested t = [''html-less'', ''html-assets'']"
proof -
  let ?o = "defaultOptions ''/srv''"
  obtain s where r: "run ?o [WatchTask, Finish ''build'' StartWatching Succeeded] init = Some s"
    by (simp add: watch_task_def gulp_start_def)
  from watching_started [OF r] have s: "requested s = []" "watchers s = [AllLess, Assets, Html]"
    by blast+
  from change_requests_every_matching_task
    [of ?o "\<lambda>w p. w \<noteq> Html" "\<lambda>p. False" "''app/assets/theme.less''" s] s
  obtain t where
    "run ?o (notifications (\<lambda>w p. w \<noteq> Html) (\<lambda>p. False) ''app/assets/theme.less'' s) s = Some t"
    "requested t = [''html-less'', ''html-assets'']"
    by auto
  with r show ?thesis by blast
qed

text \<open>
  C8 as stated fails: once the watchers are registered, a change of a bundled script that
  also matches the asset glob (and neither the less nor the html glob) gives rise to two
  events, the callback of the asset watcher and the update handler, and both an asset copy
  (\<^verbatim>\<open>html-assets\<close>) and a script rebuild (\<^verbatim>\<open>html-js\<close>) are requested.
\<close>

theorem script_and_asset_counterexample:
  "map_option (notifications (\<lambda>w p. w = Assets) (\<lambda>p. True) ''app/assets/lib/util.js'')
     (run (defaultOptions ''/srv'') [WatchTask, Finish ''build'' StartWatching Succeeded] init) =
     Some [Changed Assets, Update [''app/assets/lib/util.js'']] \<and>
   map_option requested
     (run (defaultOptions ''/srv'')
        [WatchTask, Finish ''build'' StartWatching Succeeded,
         Changed Assets, Update [''app/assets/lib/util.js'']] init) =
     Some [''html-assets'', ''html-js'']"
  by (simp add: inNodeModules_def indexOf_def isPackageJson_def basename_def
        watch_task_def bundler_def init_def gulp_start_def Let_def update_handler_def
        nodeModuleChanges_def packageJsonChanges_def gutil_log_def defaultOptions_def
        rebundleJs_def runOrQueue_def start_watching_def notifications_def
        inherited_def object_prototype_def)

end
